theory Spec2Isabelle
  imports Main "HOL-Library.Monad_Syntax"
begin

section \<open>Package stream: the line-indexed buffer\<close>

text \<open>
  Bytes are modelled as \<^typ>\<open>char\<close> (an 8-bit value), byte slices as \<^typ>\<open>char list\<close>
  and Go's \<open>int\<close> as \<^typ>\<open>int\<close>: every integer below is a slice length or an offset
  into a slice, far from the 64-bit bounds. A run-time panic of the Go code (a slice
  expression or an index out of range) is the value \<open>None\<close>; the locks are left out, the
  model runs one call at a time.
\<close>

definition LF :: char where
  "LF = CHR 0x0A"

definition CR :: char where
  "CR = CHR 0x0D"

definition len :: "'a list \<Rightarrow> int" where
  "len xs = int (length xs)"

text \<open>
  The slice expression \<open>s[lo:hi]\<close>. A slice is modelled by its elements alone, that is
  as a slice whose capacity is its length: the expression panics unless
  \<open>0 \<le> lo \<le> hi \<le> len(s)\<close>. Go lets \<open>hi\<close> run up to \<open>cap(s)\<close>, into elements of
  the backing array beyond \<open>len(s)\<close> that the model does not hold; for such a \<open>hi\<close>
  the model panics where the code may not. No slice expression of this package gets
  there while the line index is the one \<open>Append\<close> builds and the underlying reader
  keeps \<open>n \<le> len(p)\<close>.
\<close>

definition slice :: "'a list \<Rightarrow> int \<Rightarrow> int \<Rightarrow> 'a list option" where
  "slice s lo hi =
     (if 0 \<le> lo \<and> lo \<le> hi \<and> hi \<le> len s
      then Some (take (nat (hi - lo)) (drop (nat lo) s))
      else None)"

text \<open>The slice expression \<open>s[lo:]\<close>, which is \<open>s[lo:len(s)]\<close>.\<close>

definition slice_from :: "'a list \<Rightarrow> int \<Rightarrow> 'a list option" where
  "slice_from s lo = slice s lo (len s)"

text \<open>The index expression \<open>s[i]\<close>; it panics unless \<open>0 \<le> i < len(s)\<close>.\<close>

definition index :: "'a list \<Rightarrow> int \<Rightarrow> 'a option" where
  "index s i = (if 0 \<le> i \<and> i < len s then Some (s ! nat i) else None)"

text \<open>\<open>bytes.IndexByte\<close>: the index of the first instance of \<open>c\<close>, or \<open>-1\<close>.\<close>

fun IndexByte :: "char list \<Rightarrow> char \<Rightarrow> int" where
  "IndexByte [] c = - 1"
| "IndexByte (x # xs) c =
     (if x = c then 0
      else (let i = IndexByte xs c in if i < 0 then - 1 else i + 1))"

text \<open>\<open>bytes.LastIndexByte\<close>: the index of the last instance of \<open>c\<close>, or \<open>-1\<close>.\<close>

fun LastIndexByte :: "char list \<Rightarrow> char \<Rightarrow> int" where
  "LastIndexByte [] c = - 1"
| "LastIndexByte (x # xs) c =
     (let i = LastIndexByte xs c
      in if 0 \<le> i then i + 1 else if x = c then 0 else - 1)"

text \<open>
  \<open>type Buffer struct { mu; buf []byte; lines [][3]int }\<close>: an entry of \<open>lines\<close> is
  (line start, position of the carriage return, position of the line feed).
\<close>

record Buffer =
  buf :: "char list"
  lines :: "(int \<times> int \<times> int) list"

text \<open>\<open>new(Buffer)\<close>\<close>

definition newBuffer :: Buffer where
  "newBuffer = \<lparr>buf = [], lines = []\<rparr>"

definition lastLineEnd :: "Buffer \<Rightarrow> int" where
  "lastLineEnd b =
     (if length (lines b) > 0
      then (case last (lines b) of (s, c, e) \<Rightarrow> e + 1)
      else 0)"

text \<open>The closure \<open>appendLine\<close> of \<open>Append\<close>.\<close>

definition appendLine :: "Buffer \<Rightarrow> int \<Rightarrow> int \<Rightarrow> Buffer option" where
  "appendLine b start end =
     do {
       line \<leftarrow> slice (buf b) start end;
       let lineLen = LastIndexByte line CR;
       let lineLen = (if lineLen < 0 then len line else lineLen);
       Some (b\<lparr>lines := lines b @ [(start, start + lineLen, start + len line)]\<rparr>)
     }"

text \<open>
  The \<open>for\<close> loop of \<open>Append\<close>, on the loop variables \<open>lineBuf\<close> and \<open>j\<close>;
  \<open>lle\<close> is the local variable \<open>lastLineEnd\<close>, read before the loop.
\<close>

function scanLines :: "int \<Rightarrow> Buffer \<Rightarrow> char list \<Rightarrow> int \<Rightarrow> Buffer option" where
  "scanLines lle b lineBuf j =
     (let i = IndexByte lineBuf LF
      in if i < 0 then Some b
         else do {
           let lineStart = lle + j;
           b' \<leftarrow> appendLine b lineStart (lineStart + i);
           lineBuf' \<leftarrow> slice_from lineBuf (i + 1);
           scanLines lle b' lineBuf' (j + (i + 1))
         })"
  by pat_completeness auto
termination
  by (relation "measure (\<lambda>(l, b, lineBuf, j). length lineBuf)")
     (auto simp: slice_from_def slice_def len_def split: if_splits)

definition Append :: "Buffer \<Rightarrow> char list \<Rightarrow> Buffer option" where
  "Append b p =
     (if len p = 0 then Some b
      else do {
        let b = (if length (lines b) > 0 then b\<lparr>lines := butlast (lines b)\<rparr> else b);
        let lle = lastLineEnd b;
        let b = b\<lparr>buf := buf b @ p\<rparr>;
        lineBuf \<leftarrow> slice_from (buf b) lle;
        b \<leftarrow> scanLines lle b lineBuf 0;
        c \<leftarrow> index (buf b) (len (buf b) - 1);
        if c \<noteq> LF then appendLine b (lastLineEnd b) (len (buf b)) else Some b
      })"

definition Len :: "Buffer \<Rightarrow> int" where
  "Len b = len (buf b)"

text \<open>
  Values of Go's \<open>error\<close>: \<open>io.EOF\<close>, an error of another package with its text, and
  the error that \<open>updatePagers\<close> makes with
  \<open>fmt.Errorf("to execute %q without args, press space", name)\<close>, with the name.
\<close>

datatype error = EOF | Err string | PressSpace string

text \<open>
  \<open>ReadAt(p, off)\<close> is \<open>copy(p, b.buf[off:]), nil\<close>: the result is the slice \<open>p\<close> after
  the copy, the number of bytes copied and the error, which is always \<open>nil\<close>.
\<close>

definition copy :: "'a list \<Rightarrow> 'a list \<Rightarrow> 'a list \<times> int" where
  "copy dst src =
     (let n = min (length dst) (length src)
      in (take n src @ drop n dst, int n))"

definition ReadAt :: "Buffer \<Rightarrow> char list \<Rightarrow> int \<Rightarrow> (char list \<times> int \<times> error option) option" where
  "ReadAt b p off =
     do {
       src \<leftarrow> slice_from (buf b) off;
       let (p', n) = copy p src;
       Some (p', n, None)
     }"

definition NLines :: "Buffer \<Rightarrow> int" where
  "NLines b = len (lines b)"

definition Line :: "Buffer \<Rightarrow> int \<Rightarrow> string option" where
  "Line b n =
     (if n < 0 \<or> n \<ge> len (lines b) then Some ''''
      else (case lines b ! nat n of (start, end, raw) \<Rightarrow> slice (buf b) start end))"

text \<open>Successive \<open>Append\<close> calls, one per chunk.\<close>

fun AppendAll :: "Buffer \<Rightarrow> char list list \<Rightarrow> Buffer option" where
  "AppendAll b [] = Some b"
| "AppendAll b (p # ps) = do { b' \<leftarrow> Append b p; AppendAll b' ps }"

subsection \<open>The line index as a function of the bytes\<close>

text \<open>
  What the index holds is stated independently of how the bytes arrived: one entry per
  line feed, and one more for the bytes after the last line feed when there are any.
  These definitions are used by the proofs only.
\<close>

definition notLF :: "char \<Rightarrow> bool" where
  "notLF c = (c \<noteq> LF)"

definition entry :: "int \<Rightarrow> char list \<Rightarrow> int \<times> int \<times> int" where
  "entry s line =
     (s, s + (if LastIndexByte line CR < 0 then len line else LastIndexByte line CR),
      s + len line)"

function terminated :: "int \<Rightarrow> char list \<Rightarrow> (int \<times> int \<times> int) list" where
  "terminated s xs =
     (if LF \<in> set xs
      then entry s (takeWhile notLF xs)
             # terminated (s + len (takeWhile notLF xs) + 1) (tl (dropWhile notLF xs))
      else [])"
  by pat_completeness auto
termination
proof (relation "measure (\<lambda>(s, xs). length xs)", goal_cases)
  case 1
  show ?case by simp
next
  case (2 s xs)
  then obtain y ys where "xs = y # ys"
    by (cases xs) auto
  then show ?case
    using length_dropWhile_le [of notLF ys] by auto
qed

text \<open>The bytes after the last line feed.\<close>

definition rest :: "char list \<Rightarrow> char list" where
  "rest xs = rev (takeWhile notLF (rev xs))"

definition index_of :: "char list \<Rightarrow> (int \<times> int \<times> int) list" where
  "index_of xs =
     terminated 0 xs
       @ (if rest xs = [] then [] else [entry (len xs - len (rest xs)) (rest xs)])"

text \<open>The offset after the last entry of an index that starts at offset \<open>s\<close>.\<close>

definition next_start :: "int \<Rightarrow> (int \<times> int \<times> int) list \<Rightarrow> int" where
  "next_start s ls = (if ls = [] then s else (case last ls of (a, c, e) \<Rightarrow> e + 1))"

section \<open>Package stream: the shared reader\<close>

text \<open>
  \<open>type Shared struct { buf *Buffer; mu sync.Mutex; r io.Reader }\<close>. The underlying
  \<open>io.Reader\<close> is any value with a \<open>Read\<close> method: it is modelled by its state, of a
  type \<open>'r\<close>, and by the function \<open>rd\<close> that a call \<open>r.Read(p)\<close> computes, from the
  state and the slice \<open>p\<close> to the slice after the call, the count \<open>n\<close>, the error and
  the next state. The lock \<open>mu\<close> is left out: one \<open>Read\<close> runs at a time.
\<close>

type_synonym 'r reader = "'r \<Rightarrow> char list \<Rightarrow> (char list \<times> int \<times> error option) \<times> 'r"

record 'r Shared =
  shared_buf :: Buffer
  shared_r :: 'r

definition NewShared :: "'r \<Rightarrow> 'r Shared" where
  "NewShared r = \<lparr>shared_buf = newBuffer, shared_r = r\<rparr>"

text \<open>
  \<open>type Reader struct { s *Shared; off int }\<close>: the \<open>Shared\<close> that \<open>s\<close> points to is
  passed to \<open>Read\<close> and returned by it.
\<close>

record Reader =
  off :: int

definition NewReader :: Reader where
  "NewReader = \<lparr>off = 0\<rparr>"

text \<open>
  \<open>Reader.Read\<close>. The test \<open>r.off < r.s.buf.Len()\<close> is made twice, before and after
  taking the lock; the last branch reads from the underlying reader.
\<close>

definition Read ::
  "'r reader \<Rightarrow> 'r Shared \<Rightarrow> Reader \<Rightarrow> char list
     \<Rightarrow> ((char list \<times> int \<times> error option) \<times> 'r Shared \<times> Reader) option" where
  "Read rd s r p =
     (if off r < Len (shared_buf s) then
        do {
          (p', n, err) \<leftarrow> ReadAt (shared_buf s) p (off r);
          Some ((p', n, err), s, r\<lparr>off := off r + n\<rparr>)
        }
      else if off r < Len (shared_buf s) then
        do {
          (p', n, err) \<leftarrow> ReadAt (shared_buf s) p (off r);
          Some ((p', n, err), s, r\<lparr>off := off r + n\<rparr>)
        }
      else
        (case rd (shared_r s) p of ((p', n, err), r') \<Rightarrow>
           if n > 0 then
             do {
               chunk \<leftarrow> slice p' 0 n;
               b \<leftarrow> Append (shared_buf s) chunk;
               Some ((p', n, err), s\<lparr>shared_buf := b, shared_r := r'\<rparr>, r)
             }
           else Some ((p', n, err), s\<lparr>shared_r := r'\<rparr>, r)))"

text \<open>
  \<open>strings.Reader.Read\<close>, the reader that \<open>newPager\<close> is given for a fixed text: the
  state is the text not read yet; at its end the call returns \<open>0, io.EOF\<close>.
\<close>

definition stringsRead :: "char list reader" where
  "stringsRead rem p =
     (if rem = [] then ((p, 0, Some EOF), rem)
      else (case copy p rem of (p', n) \<Rightarrow> ((p', n, None), drop (nat n) rem)))"


section \<open>Package shell: commands\<close>

text \<open>\<open>type Command struct { Argv []string; Raw string }\<close>\<close>

record Command =
  Argv :: "string list"
  Raw :: string

text \<open>\<open>slices.Equal(p.Argv, q.Argv)\<close>: a nil slice and an empty one are equal.\<close>

definition Equal :: "Command \<Rightarrow> Command \<Rightarrow> bool" where
  "Equal p q = (Argv p = Argv q)"

definition Empty :: "Command \<Rightarrow> bool" where
  "Empty p = (len (Argv p) = 0)"

definition Name :: "Command \<Rightarrow> string" where
  "Name p = (if Empty p then '''' else hd (Argv p))"

definition Args :: "Command \<Rightarrow> string list" where
  "Args p = (if Empty p then [] else tl (Argv p))"

section \<open>Package main: pagers\<close>

text \<open>
  A pager owns a \<open>stream.Shared\<close>, made by \<open>newPager\<close>; \<open>shared\<close> is its address, a
  number that grows with each allocation, and \<open>source\<close> says what it reads from: the
  input of the program, a fixed text, the text of an error, or the output pipe of the
  pager's own process. \<open>cmd\<close> is the process started, with the address of the
  \<open>Shared\<close> that its standard input reads from. \<open>cancel\<close> is the cancel function of the
  process's context, \<open>None\<close> for \<open>nil\<close>; the context carries the pager's own number.
  The view of the pager is left out.
\<close>

datatype source = Input | Text string | ErrorText error | Stdout

record proc =
  Path :: string
  ProcArgs :: "string list"
  Stdin :: nat

record pager =
  isErr :: bool
  command :: Command
  cmd :: "proc option"
  shared :: nat
  source :: source
  cancel :: "nat option"

text \<open>
  The world outside the model: the next address to allocate and the contexts cancelled so
  far, in the order of the calls.
\<close>

record world =
  next_id :: nat
  cancelled :: "nat list"

definition newPager :: "world \<Rightarrow> source \<Rightarrow> pager \<times> world" where
  "newPager w src =
     (\<lparr>isErr = False, command = \<lparr>Argv = [], Raw = ''''\<rparr>, cmd = None,
       shared = next_id w, source = src, cancel = None\<rparr>,
      w\<lparr>next_id := Suc (next_id w)\<rparr>)"

definition newEmptyPager :: "world \<Rightarrow> pager \<times> world" where
  "newEmptyPager w = newPager w (Text '''')"

definition newErrorPager :: "world \<Rightarrow> error \<Rightarrow> Command \<Rightarrow> pager \<times> world" where
  "newErrorPager w e c =
     (case newPager w (ErrorText e) of (p, w') \<Rightarrow> (p\<lparr>isErr := True, command := c\<rparr>, w'))"

definition newReadPager :: "world \<Rightarrow> pager \<times> world" where
  "newReadPager w = newPager w Input"

text \<open>
  \<open>newCommandPager(r, command)\<close>. Whether \<open>cmd.StdoutPipe()\<close> and \<open>cmd.Start()\<close>
  succeed is decided outside the program: \<open>start\<close> gives, for the allocation number and
  the command, the error of the first of them that fails, if any. On an error the context
  just made is cancelled and dropped; no process ran under it.
\<close>

definition newCommandPager ::
  "(nat \<Rightarrow> Command \<Rightarrow> error option) \<Rightarrow> world \<Rightarrow> nat \<Rightarrow> Command \<Rightarrow> pager \<times> world" where
  "newCommandPager start w r c =
     (if Empty c then newEmptyPager w
      else (case start (next_id w) c of
              Some e \<Rightarrow> newErrorPager w e c
            | None \<Rightarrow>
                (case newPager w Stdout of (p, w') \<Rightarrow>
                   (p\<lparr>command := c,
                      cmd := Some \<lparr>Path = Name c, ProcArgs = Args c, Stdin = r\<rparr>,
                      cancel := Some (shared p)\<rparr>, w'))))"

text \<open>\<open>pager.close\<close>\<close>

definition close :: "pager \<Rightarrow> world \<Rightarrow> world" where
  "close p w = (case cancel p of None \<Rightarrow> w | Some c \<Rightarrow> w\<lparr>cancelled := cancelled w @ [c]\<rparr>)"

section \<open>Package main: the model\<close>

text \<open>
  Of \<open>textinput.Model\<close> the controller reads \<open>Value()\<close> and \<open>Position()\<close>. Of \<open>model\<close>
  the fields of the layout (\<open>width\<close>, \<open>height\<close>, \<open>keymap\<close>, \<open>help\<close>) are left out;
  \<open>errText\<close> holds the error whose text \<open>SetErr\<close> has put there last.
\<close>

record textinput =
  Value :: string
  Position :: int

record model =
  pagers :: "pager list"
  bottomTextInput :: textinput
  errText :: "error option"
  commands :: "Command list"
  pipes :: "int list"
  minPager :: int
  maxPager :: int
  focusedPager :: int
  err :: "error option"

definition maxPagers :: int where
  "maxPagers = 3"

text \<open>\<open>newModel\<close>, for arguments whose files open.\<close>

definition newModel :: "model \<times> world" where
  "newModel =
     (case newReadPager \<lparr>next_id = 0, cancelled = []\<rparr> of (p0, w) \<Rightarrow>
        (case newEmptyPager w of (p1, w) \<Rightarrow>
           (\<lparr>pagers = [p0, p1], bottomTextInput = \<lparr>Value = '''', Position = 0\<rparr>,
             errText = None, commands = [], pipes = [],
             minPager = 0, maxPager = 0, focusedPager = 0, err = None\<rparr>, w)))"

definition SetErr :: "model \<Rightarrow> error option \<Rightarrow> model" where
  "SetErr m e = (let m = m\<lparr>err := e\<rparr> in if e \<noteq> None then m\<lparr>errText := e\<rparr> else m)"

text \<open>\<open>strings.HasSuffix\<close>\<close>

definition HasSuffix :: "string \<Rightarrow> string \<Rightarrow> bool" where
  "HasSuffix s suffix =
     (length s \<ge> length suffix \<and> drop (length s - length suffix) s = suffix)"

text \<open>
  \<open>sort.Search(n, f)\<close>, the binary search of the standard library, on its loop
  variables \<open>i\<close> and \<open>j\<close>, and \<open>sort.SearchInts(a, x)\<close>, which is
  \<open>Search(len(a), func(i int) bool { return a[i] >= x })\<close>: the loop calls \<open>f\<close> on
  indices from \<open>0\<close> to \<open>len(a) - 1\<close> only.
\<close>

function Search :: "(int \<Rightarrow> bool) \<Rightarrow> int \<Rightarrow> int \<Rightarrow> int" where
  "Search f i j =
     (if i < j
      then (let h = (i + j) div 2
            in if \<not> f h then Search f (h + 1) j else Search f i h)
      else i)"
  by pat_completeness auto
termination
  by (relation "measure (\<lambda>(f, i, j). nat (j - i))") auto

definition SearchInts :: "int list \<Rightarrow> int \<Rightarrow> int" where
  "SearchInts a x = Search (\<lambda>i. a ! nat i \<ge> x) 0 (len a)"

subsection \<open>updatePagers\<close>

text \<open>
  The parser of \<open>shell.Parse\<close> is the library \<open>mvdan.cc/sh\<close>; \<open>updatePagers\<close> takes
  the function that \<open>shell.Parse\<close> computes as the parameter \<open>parse\<close>, from the text to
  the commands, the pipe offsets and the error. The body of \<open>updatePagers\<close> is given in
  four parts, in the order of the source.
\<close>

text \<open>
  Lines 235 to 251: parse, reject a last command that is a bare name not followed by a
  space, and keep the last good parse on an error.
\<close>

definition updatePagers_parse ::
  "(string \<Rightarrow> Command list \<times> int list \<times> error option) \<Rightarrow> model \<Rightarrow> model" where
  "updatePagers_parse parse m =
     (let rawShell = Value (bottomTextInput m)
      in (case parse rawShell of (shellCommands, pipeOffsets, e) \<Rightarrow>
        (let pipeOffsets = 0 # pipeOffsets;
             e = (if e = None \<and> len shellCommands > 0
                  then (let lastCommand = last shellCommands
                        in if Name lastCommand \<noteq> '''' \<and> len (Args lastCommand) = 0
                              \<and> \<not> HasSuffix rawShell '' ''
                           then Some (PressSpace (Name lastCommand)) else e)
                  else e);
             m = SetErr m None
         in if e \<noteq> None then SetErr m e
            else m\<lparr>commands := shellCommands, pipes := pipeOffsets\<rparr>)))"

text \<open>
  Lines 252 to 265: the loop that appends empty pagers while there are fewer than
  \<open>nPagers\<close>, the loop that closes the pagers after the first \<open>nPagers\<close>, and the cut
  of the list.
\<close>

function growPagers :: "int \<Rightarrow> pager list \<times> world \<Rightarrow> pager list \<times> world" where
  "growPagers nPagers (ps, w) =
     (if nPagers > len ps
      then (case newEmptyPager w of (p, w') \<Rightarrow> growPagers nPagers (ps @ [p], w'))
      else (ps, w))"
  by pat_completeness auto
termination
  by (relation "measure (\<lambda>(n, ps, w). nat (n - len ps))") (auto simp: len_def)

fun closeAll :: "pager list \<Rightarrow> world \<Rightarrow> world" where
  "closeAll [] w = w"
| "closeAll (p # ps) w = closeAll ps (close p w)"

definition updatePagers_resize :: "model \<times> world \<Rightarrow> model \<times> world" where
  "updatePagers_resize mw =
     (case mw of (m, w) \<Rightarrow>
        (let nPagers = len (commands m) + 1
         in (case growPagers nPagers (pagers m, w) of (ps, w) \<Rightarrow>
               (let w = closeAll (drop (nat nPagers) ps) w
                in (m\<lparr>pagers := take (nat nPagers) ps\<rparr>, w)))))"

text \<open>
  Lines 266 to 283: the loop that looks for \<open>rebuildIdx\<close>, on the index \<open>i\<close> and the
  pagers from \<open>i\<close> on, and the loop that rebuilds the pagers from \<open>rebuildIdx\<close> on.
  Both run on a list of \<open>len(m.commands) + 1\<close> pagers, so that \<open>m.commands[i-1]\<close> and
  \<open>m.pagers[i-1]\<close> are in range.
\<close>

fun findRebuildIdx :: "int \<Rightarrow> pager list \<Rightarrow> Command list \<Rightarrow> int" where
  "findRebuildIdx i [] cs = - 1"
| "findRebuildIdx i (p # ps) cs =
     (if i = 0 then findRebuildIdx (i + 1) ps cs
      else if \<not> Equal (command p) (cs ! nat (i - 1)) then i
      else findRebuildIdx (i + 1) ps cs)"

function rebuildFrom ::
  "(nat \<Rightarrow> Command \<Rightarrow> error option) \<Rightarrow> Command list \<Rightarrow> int
     \<Rightarrow> pager list \<times> world \<Rightarrow> pager list \<times> world" where
  "rebuildFrom start cs i (ps, w) =
     (if i < len ps
      then (let w = close (ps ! nat i) w
            in (case newCommandPager start w (shared (ps ! nat (i - 1))) (cs ! nat (i - 1)) of
                  (p, w) \<Rightarrow> rebuildFrom start cs (i + 1) (ps[nat i := p], w)))
      else (ps, w))"
  by pat_completeness auto
termination
  by (relation "measure (\<lambda>(start, cs, i, ps, w). nat (len ps - i))") (auto simp: len_def)

definition updatePagers_rebuild ::
  "(nat \<Rightarrow> Command \<Rightarrow> error option) \<Rightarrow> model \<times> world \<Rightarrow> model \<times> world" where
  "updatePagers_rebuild start mw =
     (case mw of (m, w) \<Rightarrow>
        (let rebuildIdx = findRebuildIdx 0 (pagers m) (commands m)
         in if rebuildIdx > 0
            then (case rebuildFrom start (commands m) rebuildIdx (pagers m, w) of
                    (ps, w) \<Rightarrow> (m\<lparr>pagers := ps\<rparr>, w))
            else (m, w)))"

text \<open>
  Lines 285 to 307: the focused pager and the window of visible pagers. The calls of
  \<open>Focus\<close> and \<open>Blur\<close> change the views only.
\<close>

definition updatePagers_window :: "model \<Rightarrow> model" where
  "updatePagers_window m =
     (let pos = Position (bottomTextInput m);
          m = m\<lparr>focusedPager := SearchInts (pipes m) pos\<rparr>;
          m = m\<lparr>maxPager := min (maxPager m) (len (pagers m) - 1)\<rparr>;
          m = (if focusedPager m > maxPager m
               then (let m = m\<lparr>maxPager := focusedPager m\<rparr>
                     in m\<lparr>minPager := max 0 (maxPager m - maxPagers + 1)\<rparr>)
               else m);
          m = (if focusedPager m < minPager m
               then (let m = m\<lparr>minPager := focusedPager m\<rparr>
                     in m\<lparr>maxPager := min (minPager m + maxPagers - 1) (len (pagers m))\<rparr>)
               else m)
      in m)"

definition updatePagers ::
  "(string \<Rightarrow> Command list \<times> int list \<times> error option)
     \<Rightarrow> (nat \<Rightarrow> Command \<Rightarrow> error option) \<Rightarrow> model \<times> world \<Rightarrow> model \<times> world" where
  "updatePagers parse start mw =
     (case mw of (m, w) \<Rightarrow>
        (case updatePagers_resize (updatePagers_parse parse m, w) of (m, w) \<Rightarrow>
           (case updatePagers_rebuild start (m, w) of (m, w) \<Rightarrow>
              (updatePagers_window m, w))))"

text \<open>
  \<open>model.Update\<close> calls \<open>updatePagers\<close> after the text input has handled the message,
  when the text or the position of the cursor has changed; between two calls of
  \<open>updatePagers\<close> nothing else writes the fields modelled here. An edit is the new state
  of the text input followed by \<open>updatePagers\<close>.
\<close>

definition edit ::
  "(string \<Rightarrow> Command list \<times> int list \<times> error option)
     \<Rightarrow> (nat \<Rightarrow> Command \<Rightarrow> error option) \<Rightarrow> textinput \<Rightarrow> model \<times> world \<Rightarrow> model \<times> world" where
  "edit parse start t mw =
     (case mw of (m, w) \<Rightarrow> updatePagers parse start (m\<lparr>bottomTextInput := t\<rparr>, w))"

text \<open>The states of the program: the first one, and each one that an edit leads to.\<close>

inductive reachable ::
  "(string \<Rightarrow> Command list \<times> int list \<times> error option)
     \<Rightarrow> (nat \<Rightarrow> Command \<Rightarrow> error option) \<Rightarrow> model \<times> world \<Rightarrow> bool"
  for parse start where
    init: "reachable parse start newModel"
  | step: "reachable parse start mw \<Longrightarrow> reachable parse start (edit parse start t mw)"


subsection \<open>Notions used to state the properties of updatePagers\<close>

text \<open>The contexts that closing each pager of a list cancels, in order.\<close>

fun cancels :: "pager list \<Rightarrow> nat list" where
  "cancels [] = []"
| "cancels (p # ps) = (case cancel p of None \<Rightarrow> cancels ps | Some c \<Rightarrow> c # cancels ps)"

text \<open>The pager that \<open>newEmptyPager\<close> returns when the next address is \<open>k\<close>.\<close>

definition emptyPagerAt :: "nat \<Rightarrow> pager" where
  "emptyPagerAt k =
     \<lparr>isErr = False, command = \<lparr>Argv = [], Raw = ''''\<rparr>, cmd = None,
      shared = k, source = Text '''', cancel = None\<rparr>"

text \<open>
  The stage list agrees with the commands: one pager for the input and one for each
  command, each with its command's arguments.
\<close>

definition wired :: "model \<Rightarrow> bool" where
  "wired m =
     (length (pagers m) = length (commands m) + 1
      \<and> list_all (\<lambda>i. Equal (command (pagers m ! i)) (commands m ! (i - 1)))
           [1..<length (pagers m)])"

text \<open>
  The same for a stage list that may be longer than the commands ask for, as the first
  state of the program is.
\<close>

definition wired_prefix :: "model \<Rightarrow> bool" where
  "wired_prefix m =
     (length (commands m) + 1 \<le> length (pagers m)
      \<and> list_all (\<lambda>i. Equal (command (pagers m ! i)) (commands m ! (i - 1)))
           [1..<length (commands m) + 1])"

subsection \<open>Inputs of the examples\<close>

text \<open>
  A value for the parameter \<open>parse\<close>: what \<open>shell.Parse\<close> returns for the texts of the
  examples (the commands with their raw text, the offsets of the pipes, no error; for the
  text \<open>'\<close>, an open quote, the parser's error, its text abridged), and an error for
  every other text. In the examples every process starts.
\<close>

definition exampleParse :: "string \<Rightarrow> Command list \<times> int list \<times> error option" where
  "exampleParse s =
     (if s = '' '' then ([], [], None)
      else if s = ''ls'' then ([\<lparr>Argv = [''ls''], Raw = ''ls''\<rparr>], [], None)
      else if s = ''ls -l'' then ([\<lparr>Argv = [''ls'', ''-l''], Raw = ''ls -l''\<rparr>], [], None)
      else if s = ''c '' then ([\<lparr>Argv = [''c''], Raw = ''c''\<rparr>], [], None)
      else if s = ''a |b |c '' then
        ([\<lparr>Argv = [''a''], Raw = ''a''\<rparr>, \<lparr>Argv = [''b''], Raw = ''b''\<rparr>,
          \<lparr>Argv = [''c''], Raw = ''c''\<rparr>], [2, 5], None)
      else if s = ''a |b x|c '' then
        ([\<lparr>Argv = [''a''], Raw = ''a''\<rparr>, \<lparr>Argv = [''b'', ''x''], Raw = ''b x''\<rparr>,
          \<lparr>Argv = [''c''], Raw = ''c''\<rparr>], [2, 6], None)
      else if s = [CHR 0x27] then ([], [], Some (Err ''reached EOF without closing quote''))
      else ([], [], Some (Err ''not an example'')))"

definition exampleStart :: "nat \<Rightarrow> Command \<Rightarrow> error option" where
  "exampleStart k c = None"


section \<open>Properties of the line-indexed buffer\<close>

declare terminated.simps [simp del]
declare scanLines.simps [simp del]

lemma IndexByte_takeWhile:
  "IndexByte xs c = (if c \<in> set xs then len (takeWhile (\<lambda>x. x \<noteq> c) xs) else - 1)"
  by (induction xs) (auto simp: len_def Let_def)

lemma IndexByte_LF:
  "IndexByte xs LF = (if LF \<in> set xs then len (takeWhile notLF xs) else - 1)"
  using IndexByte_takeWhile [of xs LF] by (simp add: notLF_def [abs_def])

lemma rest_no_LF: "LF \<notin> set (rest xs)"
proof -
  have "\<forall>x \<in> set (takeWhile notLF (rev xs)). notLF x"
    by (meson set_takeWhileD)
  then show ?thesis by (auto simp: rest_def notLF_def)
qed

lemma rest_id: "LF \<notin> set xs \<Longrightarrow> rest xs = xs"
proof -
  assume "LF \<notin> set xs"
  then have h: "takeWhile notLF (rev xs) = rev xs"
    by (auto simp: takeWhile_eq_all_conv notLF_def)
  show ?thesis
    unfolding rest_def h by (rule rev_rev_ident)
qed

lemma rest_append_LF: "rest (xs @ LF # ys) = rest ys"
proof (cases "LF \<in> set ys")
  case True
  then have "takeWhile notLF (rev ys @ LF # rev xs) = takeWhile notLF (rev ys)"
    by (intro takeWhile_append1 [of LF]) (auto simp: notLF_def)
  then show ?thesis
    by (simp add: rest_def)
next
  case False
  then have "takeWhile notLF (rev ys @ LF # rev xs) = rev ys @ takeWhile notLF (LF # rev xs)"
    by (intro takeWhile_append2) (auto simp: notLF_def)
  then have "rest (xs @ LF # ys) = ys"
    by (simp add: rest_def notLF_def)
  then show ?thesis
    using rest_id [OF False] by simp
qed

lemma length_rest_le: "length (rest xs) \<le> length xs"
  using length_takeWhile_le [of notLF "rev xs"] by (simp add: rest_def)

lemma split_first_LF:
  "LF \<in> set xs \<Longrightarrow> xs = takeWhile notLF xs @ LF # tl (dropWhile notLF xs)"
proof -
  assume h: "LF \<in> set xs"
  then have "dropWhile notLF xs \<noteq> []"
    by (auto simp: dropWhile_eq_Nil_conv notLF_def)
  moreover have "hd (dropWhile notLF xs) = LF"
    using calculation hd_dropWhile [of notLF xs] by (simp add: notLF_def)
  ultimately have "dropWhile notLF xs = LF # tl (dropWhile notLF xs)"
    by (cases "dropWhile notLF xs") auto
  then show ?thesis
    using takeWhile_dropWhile_id [of notLF xs] by simp
qed

lemma rest_tl_dropWhile:
  "LF \<in> set xs \<Longrightarrow> rest (tl (dropWhile notLF xs)) = rest xs"
  using split_first_LF [of xs] rest_append_LF [of "takeWhile notLF xs" "tl (dropWhile notLF xs)"]
  by simp

lemma terminated_no_LF: "LF \<notin> set xs \<Longrightarrow> terminated s xs = []"
  by (simp add: terminated.simps)

lemma terminated_first:
  "LF \<notin> set l \<Longrightarrow> terminated s (l @ LF # ys) = entry s l # terminated (s + len l + 1) ys"
proof -
  assume h: "LF \<notin> set l"
  then have "takeWhile notLF (l @ LF # ys) = l" "dropWhile notLF (l @ LF # ys) = LF # ys"
    by (auto simp: takeWhile_append dropWhile_append notLF_def)
  then show ?thesis
    by (subst terminated.simps) simp
qed

lemma terminated_append:
  "terminated s (xs @ ys) =
     terminated s xs @ terminated (s + len xs - len (rest xs)) (rest xs @ ys)"
proof (induction s xs rule: terminated.induct)
  case (1 s xs)
  show ?case
  proof (cases "LF \<in> set xs")
    case False
    then show ?thesis
      by (simp add: terminated_no_LF rest_id)
  next
    case True
    define l where "l = takeWhile notLF xs"
    define t where "t = tl (dropWhile notLF xs)"
    have xs: "xs = l @ LF # t"
      using split_first_LF [OF True] by (simp add: l_def t_def)
    have l: "LF \<notin> set l"
      unfolding l_def using set_takeWhileD [of LF notLF xs] by (auto simp: notLF_def)
    have ih: "terminated (s + len l + 1) (t @ ys) =
        terminated (s + len l + 1) t
          @ terminated (s + len l + 1 + len t - len (rest t)) (rest t @ ys)"
      using "1.IH" [OF True] by (simp add: l_def t_def)
    have r: "rest xs = rest t"
      by (simp add: xs rest_append_LF)
    have n: "s + len l + 1 + len t - len (rest t) = s + len xs - len (rest xs)"
      by (simp add: r) (simp add: xs len_def)
    have "terminated s (xs @ ys) = entry s l # terminated (s + len l + 1) (t @ ys)"
      using terminated_first [OF l, of s "t @ ys"] by (simp add: xs)
    moreover have "terminated s xs = entry s l # terminated (s + len l + 1) t"
      using terminated_first [OF l, of s t] by (simp add: xs)
    ultimately show ?thesis
      using ih n r by simp
  qed
qed

lemma next_start_terminated:
  "next_start s (terminated s xs) = s + len xs - len (rest xs)"
proof (induction s xs rule: terminated.induct)
  case (1 s xs)
  show ?case
  proof (cases "LF \<in> set xs")
    case False
    then show ?thesis
      by (simp add: terminated_no_LF rest_id next_start_def)
  next
    case True
    define l where "l = takeWhile notLF xs"
    define t where "t = tl (dropWhile notLF xs)"
    have xs: "xs = l @ LF # t"
      using split_first_LF [OF True] by (simp add: l_def t_def)
    have l: "LF \<notin> set l"
      unfolding l_def using set_takeWhileD [of LF notLF xs] by (auto simp: notLF_def)
    have ih: "next_start (s + len l + 1) (terminated (s + len l + 1) t) =
        s + len l + 1 + len t - len (rest t)"
      using "1.IH" [OF True] by (simp add: l_def t_def)
    have r: "rest xs = rest t"
      by (simp add: xs rest_append_LF)
    have n: "s + len l + 1 + len t - len (rest t) = s + len xs - len (rest xs)"
      by (simp add: r) (simp add: xs len_def)
    have T: "terminated s xs = entry s l # terminated (s + len l + 1) t"
      using terminated_first [OF l, of s t] by (simp add: xs)
    show ?thesis
    proof (cases "terminated (s + len l + 1) t = []")
      case True
      with ih n show ?thesis
        by (simp add: T next_start_def entry_def)
    next
      case False
      with ih n show ?thesis
        by (simp add: T next_start_def)
    qed
  qed
qed


lemma lastLineEnd_next_start: "lastLineEnd b = next_start 0 (lines b)"
  by (simp add: lastLineEnd_def next_start_def)

lemma rest_suffix: "xs = take (length xs - length (rest xs)) xs @ rest xs"
proof -
  have "rev xs = takeWhile notLF (rev xs) @ dropWhile notLF (rev xs)"
    by simp
  then have "xs = rev (dropWhile notLF (rev xs)) @ rest xs"
    unfolding rest_def by (metis rev_append rev_rev_ident)
  then obtain pre where pre: "xs = pre @ rest xs"
    by blast
  then have "length pre = length xs - length (rest xs)"
    by (metis add_diff_cancel_right' length_append)
  with pre show ?thesis
    by (metis append_eq_conv_conj)
qed

lemma drop_rest: "drop (length xs - length (rest xs)) xs = rest xs"
  using rest_suffix [of xs] by (metis append_take_drop_id same_append_eq)

lemma rest_Nil_iff: "rest xs = [] \<longleftrightarrow> xs = [] \<or> last xs = LF"
proof (cases xs rule: rev_cases)
  case Nil
  then show ?thesis by (simp add: rest_def)
next
  case (snoc ys y)
  then show ?thesis by (simp add: rest_def notLF_def)
qed

lemma scanLines_terminated:
  "0 \<le> lle + j \<Longrightarrow> lineBuf = drop (nat (lle + j)) (buf b) \<Longrightarrow>
   scanLines lle b lineBuf j = Some (b\<lparr>lines := lines b @ terminated (lle + j) lineBuf\<rparr>)"
proof (induction "length lineBuf" arbitrary: b lineBuf j rule: less_induct)
  case less
  show ?case
  proof (cases "LF \<in> set lineBuf")
    case False
    then show ?thesis
      by (subst scanLines.simps) (simp add: IndexByte_LF terminated_no_LF)
  next
    case True
    define l where "l = takeWhile notLF lineBuf"
    define t where "t = tl (dropWhile notLF lineBuf)"
    define b' where "b' = b\<lparr>lines := lines b @ [entry (lle + j) l]\<rparr>"
    have lb: "lineBuf = l @ LF # t"
      using split_first_LF [OF True] by (simp add: l_def t_def)
    have l: "LF \<notin> set l"
      unfolding l_def using set_takeWhileD [of LF notLF lineBuf] by (auto simp: notLF_def)
    have i: "IndexByte lineBuf LF = len l"
      using True by (simp add: IndexByte_LF l_def)
    have d: "drop (nat (lle + j)) (buf b) = l @ LF # t"
      using less.prems lb by simp
    then have "length (l @ LF # t) \<le> length (buf b) - nat (lle + j)"
      by (metis length_drop order_refl)
    then have bound: "lle + j + len l + 1 \<le> len (buf b)"
      using less.prems(1) by (simp add: len_def)
    have "take (length l) (drop (nat (lle + j)) (buf b)) = l"
      by (simp add: d)
    then have sl: "slice (buf b) (lle + j) (lle + j + len l) = Some l"
      using less.prems(1) bound by (simp add: slice_def len_def)
    have al: "appendLine b (lle + j) (lle + j + len l) = Some b'"
      by (simp add: appendLine_def sl b'_def entry_def Let_def)
    have sf: "slice_from lineBuf (len l + 1) = Some t"
      by (simp add: slice_from_def slice_def lb len_def nat_add_distrib)
    have "nat (lle + (j + (len l + 1))) = length l + 1 + nat (lle + j)"
      using less.prems(1) by (simp add: len_def)
    then have "drop (nat (lle + (j + (len l + 1)))) (buf b) = drop (length l + 1) (drop (nat (lle + j)) (buf b))"
      by (simp only: drop_drop)
    then have t: "t = drop (nat (lle + (j + (len l + 1)))) (buf b')"
      by (simp add: d b'_def)
    have "length t < length lineBuf"
      by (simp add: lb)
    moreover have "0 \<le> lle + (j + (len l + 1))"
      using less.prems(1) by (simp add: len_def)
    ultimately have ih: "scanLines lle b' t (j + (len l + 1)) =
        Some (b'\<lparr>lines := lines b' @ terminated (lle + (j + (len l + 1))) t\<rparr>)"
      using less.hyps [of t "j + (len l + 1)" b'] t by simp
    have "lle + j + len l + 1 = lle + (j + (len l + 1))"
      by simp
    then have "terminated (lle + j) lineBuf =
        entry (lle + j) l # terminated (lle + (j + (len l + 1))) t"
      using terminated_first [OF l, of "lle + j" t] by (simp only: lb)
    moreover have "\<not> len l < 0"
      by (simp add: len_def)
    ultimately show ?thesis
      by (subst scanLines.simps)
         (simp add: i al [unfolded b'_def] sf ih [unfolded b'_def] Let_def)
  qed
qed


lemma slice_from_drop:
  "0 \<le> lo \<Longrightarrow> lo \<le> len s \<Longrightarrow> slice_from s lo = Some (drop (nat lo) s)"
proof -
  assume "0 \<le> lo" "lo \<le> len s"
  moreover from this have "length (drop (nat lo) s) \<le> nat (len s - lo)"
    by (simp add: len_def)
  ultimately show ?thesis
    by (simp add: slice_from_def slice_def)
qed

lemma Append_core:
  assumes b: "buf b = xs0 @ q0" and p: "p \<noteq> []"
    and ls: "butlast (lines b) = terminated 0 xs0"
  shows "Append b p = Some \<lparr>buf = buf b @ p, lines = index_of (buf b @ p)\<rparr>"
proof -
  define st where "st = len xs0 - len (rest xs0)"
  define all where "all = buf b @ p"
  define b1 where "b1 = (if length (lines b) > 0 then b\<lparr>lines := butlast (lines b)\<rparr> else b)"
  define b2 where "b2 = b1\<lparr>buf := buf b1 @ p\<rparr>"
  define b3 where "b3 = \<lparr>buf = all, lines = terminated 0 all\<rparr>"
  have l1: "lines b1 = terminated 0 xs0"
    using ls by (auto simp: b1_def)
  have u1: "buf b1 = buf b"
    by (simp add: b1_def)
  have lle: "lastLineEnd b1 = st"
    by (simp add: lastLineEnd_next_start l1 next_start_terminated st_def)
  have st0: "0 \<le> st"
    using length_rest_le [of xs0] by (simp add: st_def len_def)
  have nst: "nat st = length xs0 - length (rest xs0)"
    using length_rest_le [of xs0] by (simp add: st_def len_def)
  have a: "all = xs0 @ q0 @ p"
    by (simp add: all_def b)
  have dr: "drop (nat st) all = rest xs0 @ q0 @ p"
    using length_rest_le [of xs0] by (simp add: a nst drop_rest)
  have u2: "buf b2 = all"
    by (simp add: b2_def u1 all_def)
  have "st \<le> len all"
    using length_rest_le [of xs0] by (simp add: st_def a len_def)
  then have sf: "slice_from (buf b2) st = Some (rest xs0 @ q0 @ p)"
    using st0 dr by (simp add: slice_from_drop u2)
  have "scanLines st b2 (rest xs0 @ q0 @ p) 0 =
      Some (b2\<lparr>lines := lines b2 @ terminated (st + 0) (rest xs0 @ q0 @ p)\<rparr>)"
    by (rule scanLines_terminated) (simp_all add: st0 u2 dr)
  moreover have "terminated 0 xs0 @ terminated st (rest xs0 @ q0 @ p) = terminated 0 all"
    using terminated_append [of 0 xs0 "q0 @ p"] by (simp add: st_def a)
  moreover have "lines b2 = terminated 0 xs0"
    by (simp add: b2_def l1)
  ultimately have sc: "scanLines st b2 (rest xs0 @ q0 @ p) 0 = Some b3"
    using u2 by (simp add: b3_def)
  have ne: "all \<noteq> []"
    using p by (simp add: all_def)
  then have "nat (len all - 1) = length all - 1" "0 \<le> len all - 1" "len all - 1 < len all"
    by (simp_all add: len_def)
  with ne have ix: "index (buf b3) (len (buf b3) - 1) = Some (last all)"
    by (simp add: index_def b3_def last_conv_nth)
  have le3: "lastLineEnd b3 = len all - len (rest all)"
    by (simp add: lastLineEnd_next_start b3_def next_start_terminated)
  have "nat (len all - len (rest all)) = length all - length (rest all)"
    using length_rest_le [of all] by (simp add: len_def)
  moreover have "nat (len all - (len all - len (rest all))) = length (rest all)"
    by (simp add: len_def)
  ultimately have s3: "slice all (len all - len (rest all)) (len all) = Some (rest all)"
    using length_rest_le [of all] by (simp add: slice_def drop_rest) (simp add: len_def)
  have al3: "appendLine b3 (lastLineEnd b3) (len (buf b3)) =
      Some \<lparr>buf = all, lines = terminated 0 all @ [entry (len all - len (rest all)) (rest all)]\<rparr>"
    by (simp add: appendLine_def le3 [unfolded b3_def] b3_def s3 entry_def Let_def)
  have fin: "(if last all \<noteq> LF then appendLine b3 (lastLineEnd b3) (len (buf b3)) else Some b3) =
      Some \<lparr>buf = all, lines = index_of all\<rparr>"
    using ne rest_Nil_iff [of all] al3 by (simp add: index_of_def b3_def)
  have "len p \<noteq> 0"
    using p by (simp add: len_def)
  then have "Append b p = Some \<lparr>buf = all, lines = index_of all\<rparr>"
    unfolding Append_def Let_def b1_def [symmetric]
    unfolding lle b2_def [symmetric]
    by (simp add: sf sc ix fin)
  then show ?thesis
    by (simp add: all_def)
qed

lemma Append_index_of:
  assumes inv: "lines b = index_of (buf b)" and p: "p \<noteq> []"
  shows "Append b p = Some \<lparr>buf = buf b @ p, lines = index_of (buf b @ p)\<rparr>"
proof (cases "rest (buf b) = []")
  case False
  then have "butlast (lines b) = terminated 0 (buf b)"
    by (simp add: inv index_of_def)
  then show ?thesis
    using Append_core [of b "buf b" "[]" p] p by simp
next
  case True
  show ?thesis
  proof (cases "buf b = []")
    case True
    then have "lines b = []"
      by (simp add: inv index_of_def rest_def terminated_no_LF)
    then have "butlast (lines b) = terminated 0 []"
      by (simp add: terminated_no_LF)
    then show ?thesis
      using Append_core [of b "[]" "[]" p] p True by simp
  next
    case False
    with True have "last (buf b) = LF"
      by (simp add: rest_Nil_iff)
    with False have bb: "buf b = butlast (buf b) @ [LF]"
      by (metis append_butlast_last_id)
    define xs0 where "xs0 = butlast (buf b)"
    have "terminated 0 (xs0 @ [LF]) =
        terminated 0 xs0 @ terminated (0 + len xs0 - len (rest xs0)) (rest xs0 @ [LF])"
      by (rule terminated_append)
    moreover have "terminated (0 + len xs0 - len (rest xs0)) (rest xs0 @ [LF]) =
        [entry (0 + len xs0 - len (rest xs0)) (rest xs0)]"
      using terminated_first [OF rest_no_LF, of _ xs0 "[]"] by (simp add: terminated_no_LF)
    ultimately have "butlast (lines b) = terminated 0 xs0"
      using bb True by (simp add: inv index_of_def xs0_def)
    then show ?thesis
      using Append_core [of b xs0 "[LF]" p] p bb by (simp add: xs0_def)
  qed
qed

lemma AppendAll_index_of:
  "lines b = index_of (buf b) \<Longrightarrow>
   AppendAll b ps = Some \<lparr>buf = buf b @ concat ps, lines = index_of (buf b @ concat ps)\<rparr>"
proof (induction ps arbitrary: b)
  case Nil
  then show ?case by simp
next
  case (Cons p ps)
  show ?case
  proof (cases "p = []")
    case True
    then have "Append b p = Some b"
      by (simp add: Append_def len_def)
    then show ?thesis
      using Cons True by simp
  next
    case False
    then show ?thesis
      using Append_index_of [OF Cons.prems False] Cons.IH [of "\<lparr>buf = buf b @ p, lines = index_of (buf b @ p)\<rparr>"]
      by simp
  qed
qed

lemma newBuffer_index_of: "lines newBuffer = index_of (buf newBuffer)"
  by (simp add: newBuffer_def index_of_def rest_def terminated_no_LF)

subsection \<open>Chunking (C4)\<close>

text \<open>
  Claim C4. Appending a byte sequence in any sequence of chunks (whole, byte by byte, a
  \<open>\r\n\<close> pair split over two calls) gives the same \<open>Len()\<close>, \<open>NLines()\<close> and
  \<open>Line(n)\<close> for every \<open>n\<close> as appending their concatenation in one call, and no call
  panics. Empty chunks are allowed as well: \<open>Append\<close> returns at once on them.
\<close>

theorem Append_chunking_invariant:
  "\<exists>b b'. AppendAll newBuffer chunks = Some b \<and> Append newBuffer (concat chunks) = Some b'
     \<and> Len b = Len b' \<and> NLines b = NLines b' \<and> (\<forall>n. Line b n = Line b' n)"
proof -
  define S where "S = concat chunks"
  have 1: "AppendAll newBuffer chunks = Some \<lparr>buf = S, lines = index_of S\<rparr>"
    using AppendAll_index_of [OF newBuffer_index_of, of chunks]
    by (simp add: newBuffer_def S_def)
  have 2: "Append newBuffer S = Some \<lparr>buf = S, lines = index_of S\<rparr>"
  proof (cases "S = []")
    case True
    then show ?thesis
      by (simp add: Append_def len_def newBuffer_def index_of_def rest_def terminated_no_LF)
  next
    case False
    then show ?thesis
      using Append_index_of [OF newBuffer_index_of False] by (simp add: newBuffer_def)
  qed
  show ?thesis
    using 1 2 by (simp add: S_def)
qed

text \<open>The chunks \<open>"a\r"\<close> and \<open>"\nb"\<close>: the pair \<open>\r\n\<close> is split over two calls.\<close>

theorem Append_chunking_invariant_witness:
  "\<exists>b. AppendAll newBuffer [[CHR ''a'', CR], [LF, CHR ''b'']] = Some b
     \<and> Len b = 4 \<and> NLines b = 2 \<and> Line b 0 = Some ''a'' \<and> Line b 1 = Some ''b''"
proof -
  let ?b' = "\<lparr>buf = [CHR ''a'', CR, LF, CHR ''b''], lines = [(0, 1, 2), (3, 4, 4)]\<rparr>"
  have a: "Append newBuffer (concat [[CHR ''a'', CR], [LF, CHR ''b'']]) = Some ?b'"
    by code_simp
  have o: "Len ?b' = 4" "NLines ?b' = 2" "Line ?b' 0 = Some ''a''" "Line ?b' 1 = Some ''b''"
    by code_simp+
  obtain b b' where
    "AppendAll newBuffer [[CHR ''a'', CR], [LF, CHR ''b'']] = Some b"
    "Append newBuffer (concat [[CHR ''a'', CR], [LF, CHR ''b'']]) = Some b'"
    "Len b = Len b'" "NLines b = NLines b'" "\<forall>n. Line b n = Line b' n"
    using Append_chunking_invariant [of "[[CHR ''a'', CR], [LF, CHR ''b'']]"] by blast
  then show ?thesis
    using a o by auto
qed

subsection \<open>Carriage returns inside a line (C5)\<close>

text \<open>
  Claim C5 says that \<open>Line(n)\<close> drops the line feed and at most one trailing carriage
  return, and keeps a carriage return elsewhere in the line. \<open>appendLine\<close> cuts the
  content at \<open>bytes.LastIndexByte(line, '\r')\<close>, wherever that carriage return is: for
  the bytes \<open>"a\rb\n"\<close> the entry is \<open>(0, 1, 3)\<close> and \<open>Line(0)\<close> is \<open>"a"\<close>, so the
  carriage return and the byte \<open>b\<close> after it are lost.
\<close>

theorem Line_interior_CR_truncated:
  "Append newBuffer [CHR ''a'', CR, CHR ''b'', LF] =
     Some \<lparr>buf = [CHR ''a'', CR, CHR ''b'', LF], lines = [(0, 1, 3)]\<rparr>
   \<and> Line \<lparr>buf = [CHR ''a'', CR, CHR ''b'', LF], lines = [(0, 1, 3)]\<rparr> 0 = Some ''a''"
  by code_simp

subsection \<open>Invalid queries (C8)\<close>

text \<open>
  Claim C8 says that a read at an offset outside the buffered range returns an empty
  result and never panics. \<open>ReadAt\<close> evaluates \<open>b.buf[off:]\<close> with no check of its
  own: on the two buffered bytes \<open>"ab"\<close> a read at offset 3, or at offset -1, panics.
\<close>

theorem ReadAt_out_of_range_panics:
  "Append newBuffer ''ab'' = Some \<lparr>buf = ''ab'', lines = [(0, 2, 2)]\<rparr>
   \<and> Len \<lparr>buf = ''ab'', lines = [(0, 2, 2)]\<rparr> = 2
   \<and> ReadAt \<lparr>buf = ''ab'', lines = [(0, 2, 2)]\<rparr> ''xyz'' 3 = None
   \<and> ReadAt \<lparr>buf = ''ab'', lines = [(0, 2, 2)]\<rparr> ''xyz'' (- 1) = None"
  by code_simp

text \<open>
  Claim C8, as amended. \<open>Line(n)\<close> with \<open>n < 0\<close> or \<open>n \<ge> NLines()\<close> returns the empty
  string and does not panic. \<open>ReadAt(p, off)\<close> with \<open>0 \<le> off \<le> Len()\<close> copies the
  \<open>k = min(len(p), Len() - off)\<close> bytes \<open>b.buf[off : off+k]\<close> to the front of \<open>p\<close>,
  leaves the rest of \<open>p\<close> as it was, and returns \<open>k\<close> with a nil error; it copies
  nothing when \<open>off = Len()\<close>. With \<open>off < 0\<close> or \<open>off > Len()\<close> it panics.
\<close>

theorem invalid_queries:
  "(n < 0 \<or> n \<ge> NLines b \<longrightarrow> Line b n = Some '''')
   \<and> (0 \<le> offset \<and> offset \<le> Len b \<longrightarrow>
        ReadAt b p offset =
          Some (take (nat (min (len p) (Len b - offset))) (drop (nat offset) (buf b))
                  @ drop (nat (min (len p) (Len b - offset))) p,
                min (len p) (Len b - offset), None))
   \<and> (offset = Len b \<longrightarrow> ReadAt b p offset = Some (p, 0, None))
   \<and> (offset < 0 \<or> offset > Len b \<longrightarrow> ReadAt b p offset = None)"
proof -
  have 1: "n < 0 \<or> n \<ge> NLines b \<longrightarrow> Line b n = Some ''''"
    by (simp add: Line_def NLines_def)
  have 2: "0 \<le> offset \<and> offset \<le> Len b \<longrightarrow>
        ReadAt b p offset =
          Some (take (nat (min (len p) (Len b - offset))) (drop (nat offset) (buf b))
                  @ drop (nat (min (len p) (Len b - offset))) p,
                min (len p) (Len b - offset), None)"
  proof
    assume a: "0 \<le> offset \<and> offset \<le> Len b"
    then have s: "slice_from (buf b) offset = Some (drop (nat offset) (buf b))"
      by (simp add: slice_from_drop Len_def)
    have "0 \<le> offset" "offset \<le> int (length (buf b))"
      using a by (simp_all add: Len_def len_def)
    then have "int (length (buf b) - nat offset) = int (length (buf b)) - offset"
      by arith
    then have "int (length (buf b) - nat offset) = Len b - offset"
      by (simp add: Len_def len_def)
    then have k: "int (min (length p) (length (drop (nat offset) (buf b))))
        = min (len p) (Len b - offset)"
      by (simp add: len_def)
    then have "min (length p) (length (drop (nat offset) (buf b)))
        = nat (min (len p) (Len b - offset))"
      by linarith
    then show "ReadAt b p offset =
          Some (take (nat (min (len p) (Len b - offset))) (drop (nat offset) (buf b))
                  @ drop (nat (min (len p) (Len b - offset))) p,
                min (len p) (Len b - offset), None)"
      using k by (simp add: ReadAt_def s copy_def Let_def)
  qed
  have 3: "offset = Len b \<longrightarrow> ReadAt b p offset = Some (p, 0, None)"
    by (simp add: ReadAt_def slice_from_drop Len_def copy_def len_def)
  have 4: "offset < 0 \<or> offset > Len b \<longrightarrow> ReadAt b p offset = None"
    by (auto simp: ReadAt_def slice_from_def slice_def Len_def)
  show ?thesis
    using 1 2 3 4 by blast
qed

text \<open>
  The cases on the buffer holding \<open>"ab"\<close>: a read at offset 1 into \<open>"xyz"\<close> copies the
  byte \<open>b\<close> and leaves \<open>"byz"\<close>.
\<close>

theorem invalid_queries_witness:
  "Line \<lparr>buf = ''ab'', lines = [(0, 2, 2)]\<rparr> 1 = Some ''''
   \<and> Line \<lparr>buf = ''ab'', lines = [(0, 2, 2)]\<rparr> (- 1) = Some ''''
   \<and> ReadAt \<lparr>buf = ''ab'', lines = [(0, 2, 2)]\<rparr> ''xyz'' 1 = Some (''byz'', 1, None)
   \<and> ReadAt \<lparr>buf = ''ab'', lines = [(0, 2, 2)]\<rparr> ''xyz'' 2 = Some (''xyz'', 0, None)
   \<and> ReadAt \<lparr>buf = ''ab'', lines = [(0, 2, 2)]\<rparr> ''xyz'' 3 = None"
proof -
  let ?b = "\<lparr>buf = ''ab'', lines = [(0, 2, 2)]\<rparr>"
  have L: "Len ?b = 2" "NLines ?b = 1"
    by (simp_all add: Len_def NLines_def len_def)
  show ?thesis
    using invalid_queries [of 1 ?b 1 "''xyz''"] invalid_queries [of "- 1" ?b 2 "''xyz''"]
      invalid_queries [of 1 ?b 3 "''xyz''"]
    by (simp add: L len_def)
qed

section \<open>Properties of the shared reader\<close>

subsection \<open>The offset of a reader (C1)\<close>

text \<open>
  Claim C1 says that after every \<open>Read\<close> that returns \<open>n > 0\<close> bytes the reader's
  offset has grown by \<open>n\<close>, so that the bytes one reader receives are a prefix of the
  stream with no byte twice. The two branches that serve buffered bytes add \<open>n\<close> to
  \<open>r.off\<close>; the branch that reads from the underlying reader returns its \<open>n\<close> bytes and
  leaves \<open>r.off\<close> as it was. On the stream \<open>"ab"\<close> a new reader's first \<open>Read\<close>
  returns \<open>"ab"\<close> with the offset still 0, and its second \<open>Read\<close> returns \<open>"ab"\<close>
  again, from the buffer.
\<close>

theorem Read_fetch_keeps_offset:
  "Read stringsRead (NewShared ''ab'') NewReader [CHR 0x00, CHR 0x00] =
     Some ((''ab'', 2, None),
           \<lparr>shared_buf = \<lparr>buf = ''ab'', lines = [(0, 2, 2)]\<rparr>, shared_r = []\<rparr>,
           \<lparr>off = 0\<rparr>)
   \<and> Read stringsRead \<lparr>shared_buf = \<lparr>buf = ''ab'', lines = [(0, 2, 2)]\<rparr>, shared_r = []\<rparr>
         \<lparr>off = 0\<rparr> [CHR 0x00, CHR 0x00] =
     Some ((''ab'', 2, None),
           \<lparr>shared_buf = \<lparr>buf = ''ab'', lines = [(0, 2, 2)]\<rparr>, shared_r = []\<rparr>,
           \<lparr>off = 2\<rparr>)"
  by code_simp

subsection \<open>Errors of the underlying reader (C9)\<close>

text \<open>
  A \<open>Read\<close> at an offset the buffer does not cover returns what the underlying reader
  returns, and appends the bytes read to the buffer.
\<close>

lemma Read_fetch:
  assumes inv: "lines (shared_buf s) = index_of (buf (shared_buf s))"
    and nc: "\<not> off r < Len (shared_buf s)"
    and rd: "rd (shared_r s) p = ((p', n, e), r')"
    and n: "0 \<le> n" "n \<le> len p'"
  shows "Read rd s r p =
     Some ((p', n, e),
           s\<lparr>shared_buf := \<lparr>buf = buf (shared_buf s) @ take (nat n) p',
                             lines = index_of (buf (shared_buf s) @ take (nat n) p')\<rparr>,
             shared_r := r'\<rparr>,
           r)"
proof (cases "n > 0")
  case True
  have sl: "slice p' 0 n = Some (take (nat n) p')"
    using n by (simp add: slice_def)
  have "take (nat n) p' \<noteq> []"
    using True n by (auto simp: len_def)
  then have "Append (shared_buf s) (take (nat n) p') =
      Some \<lparr>buf = buf (shared_buf s) @ take (nat n) p',
            lines = index_of (buf (shared_buf s) @ take (nat n) p')\<rparr>"
    by (rule Append_index_of [OF inv])
  then show ?thesis
    using True nc by (simp add: Read_def rd sl)
next
  case False
  then have "n = 0"
    using n by simp
  then show ?thesis
    using nc inv by (simp add: Read_def rd)
qed

text \<open>
  Claim C9. When the offset of the calling reader is not covered by the buffer, \<open>Read\<close>
  returns the count and the error of the underlying \<open>Read\<close> as they are, end of stream
  included, and the bytes read are appended to the buffer. The \<open>Shared\<close> keeps the
  buffer and the underlying reader only, no error: a later \<open>Read\<close>, by any reader whose
  offset is not covered either, calls the underlying reader again, in the state the first
  call left, and returns that call's count and error. The hypotheses are the invariant of
  the buffer (it holds for \<open>NewShared\<close> and every \<open>Append\<close> keeps it) and the contract
  of \<open>io.Reader\<close>, \<open>0 \<le> n \<le> len(p)\<close>.
\<close>

theorem Read_error_not_cached:
  assumes inv: "lines (shared_buf s) = index_of (buf (shared_buf s))"
    and nc1: "\<not> off r1 < Len (shared_buf s)"
    and rd1: "rd (shared_r s) p1 = ((p1', n1, e1), x1)"
    and n1: "0 \<le> n1" "n1 \<le> len p1'"
    and nc2: "\<not> off r2 < Len (shared_buf s) + n1"
    and rd2: "rd x1 p2 = ((p2', n2, e2), x2)"
    and n2: "0 \<le> n2" "n2 \<le> len p2'"
  shows "\<exists>s1 s2.
      Read rd s r1 p1 = Some ((p1', n1, e1), s1, r1)
    \<and> buf (shared_buf s1) = buf (shared_buf s) @ take (nat n1) p1'
    \<and> shared_r s1 = x1
    \<and> Read rd s1 r2 p2 = Some ((p2', n2, e2), s2, r2)
    \<and> buf (shared_buf s2) = buf (shared_buf s1) @ take (nat n2) p2'
    \<and> shared_r s2 = x2"
proof -
  define s1 where "s1 = s\<lparr>shared_buf := \<lparr>buf = buf (shared_buf s) @ take (nat n1) p1',
        lines = index_of (buf (shared_buf s) @ take (nat n1) p1')\<rparr>, shared_r := x1\<rparr>"
  have 1: "Read rd s r1 p1 = Some ((p1', n1, e1), s1, r1)"
    unfolding s1_def
    using inv nc1 rd1 n1 by (rule Read_fetch [where rd = rd and s = s and p = p1])
  have inv1: "lines (shared_buf s1) = index_of (buf (shared_buf s1))"
    by (simp add: s1_def)
  have "Len (shared_buf s1) = Len (shared_buf s) + n1"
    using n1 by (simp add: s1_def Len_def len_def)
  then have nc2': "\<not> off r2 < Len (shared_buf s1)"
    using nc2 by simp
  have rd2': "rd (shared_r s1) p2 = ((p2', n2, e2), x2)"
    using rd2 by (simp add: s1_def)
  show ?thesis
    using 1 Read_fetch [where rd = rd and s = s1 and p = p2, OF inv1 nc2' rd2' n2]
    by (simp add: s1_def)
qed

text \<open>Two reads at the end of an exhausted stream: each returns \<open>0, io.EOF\<close>.\<close>

theorem Read_error_not_cached_witness:
  "\<exists>s1 s2.
      Read stringsRead (NewShared '''') NewReader ''xy'' = Some ((''xy'', 0, Some EOF), s1, NewReader)
    \<and> Read stringsRead s1 NewReader ''zz'' = Some ((''zz'', 0, Some EOF), s2, NewReader)"
proof -
  have "\<exists>s1 s2.
      Read stringsRead (NewShared '''') NewReader ''xy'' = Some ((''xy'', 0, Some EOF), s1, NewReader)
    \<and> buf (shared_buf s1) = buf (shared_buf (NewShared '''')) @ take (nat 0) ''xy''
    \<and> shared_r s1 = ''''
    \<and> Read stringsRead s1 NewReader ''zz'' = Some ((''zz'', 0, Some EOF), s2, NewReader)
    \<and> buf (shared_buf s2) = buf (shared_buf s1) @ take (nat 0) ''zz''
    \<and> shared_r s2 = ''''"
    using Read_error_not_cached [where rd = stringsRead and s = "NewShared ''''"
        and ?r1.0 = NewReader and ?r2.0 = NewReader and ?p1.0 = "''xy''" and ?p2.0 = "''zz''"
        and ?p1' = "''xy''" and ?p2' = "''zz''" and ?n1.0 = 0 and ?n2.0 = 0
        and ?e1.0 = "Some EOF" and ?e2.0 = "Some EOF" and ?x1.0 = "''''" and ?x2.0 = "''''"]
    by (simp add: NewShared_def NewReader_def newBuffer_index_of Len_def len_def
          newBuffer_def stringsRead_def index_of_def rest_def terminated_no_LF)
  then show ?thesis
    by blast
qed

section \<open>Properties of updatePagers\<close>

subsection \<open>The loops\<close>

declare growPagers.simps [simp del]
declare rebuildFrom.simps [simp del]
declare Search.simps [simp del]

lemma newEmptyPager_eq:
  "newEmptyPager w = (emptyPagerAt (next_id w), w\<lparr>next_id := Suc (next_id w)\<rparr>)"
  by (simp add: newEmptyPager_def newPager_def emptyPagerAt_def)

lemma growPagers_eq:
  "growPagers n (ps, w) =
     (ps @ map emptyPagerAt [next_id w..<next_id w + nat (n - len ps)],
      w\<lparr>next_id := next_id w + nat (n - len ps)\<rparr>)"
proof (induction "nat (n - len ps)" arbitrary: ps w)
  case 0
  then have "\<not> n > len ps"
    by simp
  then show ?case
    using 0 by (subst growPagers.simps) simp
next
  case (Suc k)
  then have gt: "n > len ps"
    by simp
  have k: "k = nat (n - len (ps @ [emptyPagerAt (next_id w)]))"
    using Suc.hyps(2) by (simp add: len_def)
  have n: "nat (n - len ps) = Suc k"
    using Suc.hyps(2) by simp
  have "growPagers n (ps, w) =
      growPagers n (ps @ [emptyPagerAt (next_id w)], w\<lparr>next_id := Suc (next_id w)\<rparr>)"
    using gt by (subst growPagers.simps) (simp add: newEmptyPager_eq)
  also have "\<dots> = ((ps @ [emptyPagerAt (next_id w)])
        @ map emptyPagerAt [Suc (next_id w)..<Suc (next_id w) + k],
      w\<lparr>next_id := Suc (next_id w) + k\<rparr>)"
    using Suc.hyps(1) [OF k, of "w\<lparr>next_id := Suc (next_id w)\<rparr>"] k by simp
  finally have g: "growPagers n (ps, w) =
      ((ps @ [emptyPagerAt (next_id w)])
        @ map emptyPagerAt [Suc (next_id w)..<Suc (next_id w) + k],
      w\<lparr>next_id := Suc (next_id w) + k\<rparr>)" .
  have u: "[next_id w..<next_id w + Suc k] = next_id w # [Suc (next_id w)..<Suc (next_id w) + k]"
    by (subst upt_rec) simp
  have "(ps @ [emptyPagerAt (next_id w)]) @ map emptyPagerAt [Suc (next_id w)..<Suc (next_id w) + k]
      = ps @ map emptyPagerAt [next_id w..<next_id w + Suc k]"
    unfolding u by simp
  moreover have "Suc (next_id w) + k = next_id w + Suc k"
    by simp
  ultimately show ?case
    unfolding g n by (simp only:)
qed

lemma closeAll_eq: "closeAll ps w = w\<lparr>cancelled := cancelled w @ cancels ps\<rparr>"
  by (induction ps arbitrary: w) (auto simp: close_def split: option.splits)

lemma cancels_append: "cancels (xs @ ys) = cancels xs @ cancels ys"
  by (induction xs) (auto split: option.splits)

lemma cancels_emptyPagers: "cancels (map emptyPagerAt ks) = []"
  by (induction ks) (auto simp: emptyPagerAt_def)


lemma updatePagers_resize_eq:
  "updatePagers_resize (m, w) =
     (m\<lparr>pagers := take (length (commands m) + 1)
          (pagers m @ map emptyPagerAt
             [next_id w..<next_id w + (length (commands m) + 1 - length (pagers m))])\<rparr>,
      w\<lparr>next_id := next_id w + (length (commands m) + 1 - length (pagers m)),
        cancelled := cancelled w @ cancels (drop (length (commands m) + 1) (pagers m))\<rparr>)"
proof -
  have n: "nat (len (commands m) + 1) = length (commands m) + 1"
    by (simp add: len_def)
  have k: "nat (len (commands m) + 1 - len (pagers m)) = length (commands m) + 1 - length (pagers m)"
    by (simp add: len_def)
  show ?thesis
    by (simp add: updatePagers_resize_def growPagers_eq closeAll_eq n k Let_def
          cancels_append drop_map cancels_emptyPagers)
qed

lemma findRebuildIdx_cases:
  "0 \<le> k \<Longrightarrow>
   (findRebuildIdx k ps cs = - 1
      \<and> (\<forall>j < length ps. 1 \<le> k + int j \<longrightarrow>
            Equal (command (ps ! j)) (cs ! nat (k + int j - 1))))
   \<or> (1 \<le> findRebuildIdx k ps cs \<and> k \<le> findRebuildIdx k ps cs
      \<and> findRebuildIdx k ps cs < k + len ps
      \<and> \<not> Equal (command (ps ! nat (findRebuildIdx k ps cs - k)))
              (cs ! nat (findRebuildIdx k ps cs - 1))
      \<and> (\<forall>j < nat (findRebuildIdx k ps cs - k). 1 \<le> k + int j \<longrightarrow>
            Equal (command (ps ! j)) (cs ! nat (k + int j - 1))))"
proof (induction ps arbitrary: k)
  case Nil
  then show ?case by simp
next
  case (Cons p ps)
  let ?d = "findRebuildIdx (k + 1) ps cs"
  have ih: "(?d = - 1
      \<and> (\<forall>j < length ps. 1 \<le> k + 1 + int j \<longrightarrow>
            Equal (command (ps ! j)) (cs ! nat (k + 1 + int j - 1))))
   \<or> (1 \<le> ?d \<and> k + 1 \<le> ?d \<and> ?d < k + 1 + len ps
      \<and> \<not> Equal (command (ps ! nat (?d - (k + 1)))) (cs ! nat (?d - 1))
      \<and> (\<forall>j < nat (?d - (k + 1)). 1 \<le> k + 1 + int j \<longrightarrow>
            Equal (command (ps ! j)) (cs ! nat (k + 1 + int j - 1))))"
    using Cons.IH [of "k + 1"] Cons.prems by simp
  have shift: "\<And>j. j < length ps \<Longrightarrow> (p # ps) ! Suc j = ps ! j"
    by simp
  show ?case
  proof (cases "k = 0 \<or> Equal (command p) (cs ! nat (k - 1))")
    case False
    then have "findRebuildIdx k (p # ps) cs = k"
      by simp
    then show ?thesis
      using False Cons.prems by (simp add: len_def)
  next
    case True
    then have d: "findRebuildIdx k (p # ps) cs = ?d"
      by auto
    have hd: "1 \<le> k \<longrightarrow> Equal (command p) (cs ! nat (k - 1))"
      using True by auto
    from ih show ?thesis
    proof
      assume a: "?d = - 1 \<and> (\<forall>j < length ps. 1 \<le> k + 1 + int j \<longrightarrow>
            Equal (command (ps ! j)) (cs ! nat (k + 1 + int j - 1)))"
      have "\<forall>j < length (p # ps). 1 \<le> k + int j \<longrightarrow>
            Equal (command ((p # ps) ! j)) (cs ! nat (k + int j - 1))"
      proof (intro allI impI)
        fix j assume j: "j < length (p # ps)" "1 \<le> k + int j"
        show "Equal (command ((p # ps) ! j)) (cs ! nat (k + int j - 1))"
        proof (cases j)
          case 0
          then show ?thesis using hd j by simp
        next
          case (Suc j')
          then have jl: "j' < length ps" using j by simp
          have e: "nat (k + int j - 1) = nat (k + 1 + int j' - 1)" using Suc by simp
          have n: "(p # ps) ! j = ps ! j'" using Suc by simp
          have "1 \<le> k + 1 + int j'" using Cons.prems by simp
          then have "Equal (command (ps ! j')) (cs ! nat (k + 1 + int j' - 1))"
            using a jl by blast
          then show ?thesis
            unfolding e n .
        qed
      qed
      then show ?thesis
        using a d by simp
    next
      assume b: "1 \<le> ?d \<and> k + 1 \<le> ?d \<and> ?d < k + 1 + len ps
      \<and> \<not> Equal (command (ps ! nat (?d - (k + 1)))) (cs ! nat (?d - 1))
      \<and> (\<forall>j < nat (?d - (k + 1)). 1 \<le> k + 1 + int j \<longrightarrow>
            Equal (command (ps ! j)) (cs ! nat (k + 1 + int j - 1)))"
      have "k + 1 \<le> ?d"
        using b by blast
      then have n: "nat (?d - k) = Suc (nat (?d - (k + 1)))"
        by arith
      have "\<forall>j < nat (?d - k). 1 \<le> k + int j \<longrightarrow>
            Equal (command ((p # ps) ! j)) (cs ! nat (k + int j - 1))"
      proof (intro allI impI)
        fix j assume j: "j < nat (?d - k)" "1 \<le> k + int j"
        show "Equal (command ((p # ps) ! j)) (cs ! nat (k + int j - 1))"
        proof (cases j)
          case 0
          then show ?thesis using hd j by simp
        next
          case (Suc j')
          then have jl: "j' < nat (?d - (k + 1))" using j n by simp
          have e: "nat (k + int j - 1) = nat (k + 1 + int j' - 1)" using Suc by simp
          have c: "(p # ps) ! j = ps ! j'" using Suc by simp
          have "1 \<le> k + 1 + int j'" using Cons.prems by simp
          then have "Equal (command (ps ! j')) (cs ! nat (k + 1 + int j' - 1))"
            using b jl by blast
          then show ?thesis
            unfolding e c .
        qed
      qed
      moreover have "(p # ps) ! nat (?d - k) = ps ! nat (?d - (k + 1))"
        using n by simp
      ultimately show ?thesis
        using b d by (simp add: len_def)
    qed
  qed
qed


lemma newCommandPager_eq:
  "newCommandPager start w r c =
     (fst (newCommandPager start \<lparr>next_id = next_id w, cancelled = []\<rparr> r c),
      w\<lparr>next_id := Suc (next_id w)\<rparr>)"
  by (simp add: newCommandPager_def newEmptyPager_def newErrorPager_def newPager_def
        split: option.splits)

lemma cancels_drop: "n < length ps \<Longrightarrow> cancels (drop n ps) = cancels [ps ! n] @ cancels (drop (Suc n) ps)"
  by (metis Cons_nth_drop_Suc append_Cons append_Nil cancels_append)

lemma rebuildFrom_eq:
  assumes "1 \<le> n" "n \<le> length ps" "rebuildFrom start cs (int n) (ps, w) = (ps', w')"
  shows "length ps' = length ps
    \<and> (\<forall>j < n. ps' ! j = ps ! j)
    \<and> w' = w\<lparr>next_id := next_id w + (length ps - n),
              cancelled := cancelled w @ cancels (drop n ps)\<rparr>
    \<and> (\<forall>j. n \<le> j \<and> j < length ps \<longrightarrow>
          ps' ! j = fst (newCommandPager start
                           \<lparr>next_id = next_id w + (j - n), cancelled = []\<rparr>
                           (shared (ps' ! (j - 1))) (cs ! (j - 1))))"
  using assms
proof (induction "length ps - n" arbitrary: n ps w)
  case 0
  then have "\<not> int n < len ps"
    by (simp add: len_def)
  then have "rebuildFrom start cs (int n) (ps, w) = (ps, w)"
    by (subst rebuildFrom.simps) simp
  then show ?case
    using 0 by auto
next
  case (Suc k)
  then have lt: "n < length ps"
    by simp
  define p where "p = fst (newCommandPager start \<lparr>next_id = next_id w, cancelled = []\<rparr>
      (shared (ps ! (n - 1))) (cs ! (n - 1)))"
  define cn where "cn = cancels [ps ! n]"
  define w2 where "w2 = w\<lparr>next_id := Suc (next_id w), cancelled := cancelled w @ cn\<rparr>"
  have c: "close (ps ! n) w = w\<lparr>cancelled := cancelled w @ cn\<rparr>"
    by (simp add: close_def cn_def split: option.splits)
  have nm: "nat (int n - 1) = n - 1"
    by simp
  have nc: "newCommandPager start (w\<lparr>cancelled := cancelled w @ cn\<rparr>)
      (shared (ps ! (n - 1))) (cs ! (n - 1)) = (p, w2)"
    by (subst newCommandPager_eq) (simp add: p_def w2_def)
  have il: "int n < len ps"
    using lt by (simp add: len_def)
  have "rebuildFrom start cs (int n) (ps, w) =
      rebuildFrom start cs (int n + 1) (ps[n := p], w2)"
    apply (subst rebuildFrom.simps)
    using il nc by (simp add: c nm Let_def)
  then have r: "rebuildFrom start cs (int (Suc n)) (ps[n := p], w2) = (ps', w')"
    using Suc.prems(3) by (simp add: add.commute)
  have k: "k = length (ps[n := p]) - Suc n"
    using Suc.hyps(2) by simp
  have ih: "length ps' = length (ps[n := p])
    \<and> (\<forall>j < Suc n. ps' ! j = ps[n := p] ! j)
    \<and> w' = w2\<lparr>next_id := next_id w2 + (length (ps[n := p]) - Suc n),
              cancelled := cancelled w2 @ cancels (drop (Suc n) (ps[n := p]))\<rparr>
    \<and> (\<forall>j. Suc n \<le> j \<and> j < length (ps[n := p]) \<longrightarrow>
          ps' ! j = fst (newCommandPager start
                           \<lparr>next_id = next_id w2 + (j - Suc n), cancelled = []\<rparr>
                           (shared (ps' ! (j - 1))) (cs ! (j - 1))))"
    using Suc.hyps(1) [OF k _ _ r] lt by simp
  have 1: "length ps' = length ps"
    using ih by simp
  have 2: "\<forall>j < n. ps' ! j = ps ! j"
    using ih by (metis less_Suc_eq nat_neq_iff nth_list_update_neq)
  have pn: "ps' ! n = p"
    using ih lt by simp
  have 3: "w' = w\<lparr>next_id := next_id w + (length ps - n),
              cancelled := cancelled w @ cancels (drop n ps)\<rparr>"
    using ih lt by (simp add: w2_def cn_def cancels_drop [OF lt])
  have 4: "\<forall>j. n \<le> j \<and> j < length ps \<longrightarrow>
          ps' ! j = fst (newCommandPager start
                           \<lparr>next_id = next_id w + (j - n), cancelled = []\<rparr>
                           (shared (ps' ! (j - 1))) (cs ! (j - 1)))"
  proof (intro allI impI)
    fix j assume j: "n \<le> j \<and> j < length ps"
    show "ps' ! j = fst (newCommandPager start
                           \<lparr>next_id = next_id w + (j - n), cancelled = []\<rparr>
                           (shared (ps' ! (j - 1))) (cs ! (j - 1)))"
    proof (cases "j = n")
      case True
      have "ps' ! (n - 1) = ps ! (n - 1)"
        using 2 Suc.prems(1) by simp
      then show ?thesis
        using True pn by (simp add: p_def)
    next
      case False
      then have "Suc n \<le> j \<and> j < length (ps[n := p])"
        using j by simp
      moreover have "next_id w2 = Suc (next_id w)"
        by (simp add: w2_def)
      then have "next_id w2 + (j - Suc n) = next_id w + (j - n)"
        using False j by linarith
      ultimately show ?thesis
        using ih by metis
    qed
  qed
  show ?case
    using 1 2 3 4 by blast
qed

subsection \<open>The four parts of updatePagers\<close>


lemma updatePagers_parse_bare:
  "parse (Value (bottomTextInput m)) = (cs, ps, None) \<Longrightarrow> cs \<noteq> [] \<Longrightarrow>
   Name (last cs) \<noteq> '''' \<Longrightarrow> Args (last cs) = [] \<Longrightarrow>
   \<not> HasSuffix (Value (bottomTextInput m)) '' '' \<Longrightarrow>
   updatePagers_parse parse m =
     m\<lparr>err := Some (PressSpace (Name (last cs))),
       errText := Some (PressSpace (Name (last cs)))\<rparr>"
  by (simp add: updatePagers_parse_def SetErr_def Let_def len_def)

lemma updatePagers_parse_accept:
  "parse (Value (bottomTextInput m)) = (cs, ps, None) \<Longrightarrow>
   cs = [] \<or> Name (last cs) = '''' \<or> Args (last cs) \<noteq> []
     \<or> HasSuffix (Value (bottomTextInput m)) '' '' \<Longrightarrow>
   updatePagers_parse parse m = m\<lparr>err := None, commands := cs, pipes := 0 # ps\<rparr>"
  by (auto simp: updatePagers_parse_def SetErr_def Let_def len_def)

lemma wired_iff:
  "wired m \<longleftrightarrow> length (pagers m) = length (commands m) + 1
     \<and> (\<forall>i. 1 \<le> i \<and> i < length (pagers m) \<longrightarrow>
           Equal (command (pagers m ! i)) (commands m ! (i - 1)))"
  by (auto simp: wired_def list_all_iff)

lemma wired_prefix_iff:
  "wired_prefix m \<longleftrightarrow> length (commands m) + 1 \<le> length (pagers m)
     \<and> (\<forall>i. 1 \<le> i \<and> i < length (commands m) + 1 \<longrightarrow>
           Equal (command (pagers m ! i)) (commands m ! (i - 1)))"
  by (auto simp: wired_prefix_def list_all_iff)

lemma wired_imp_prefix: "wired m \<Longrightarrow> wired_prefix m"
  by (auto simp: wired_iff wired_prefix_iff)

lemma findRebuildIdx_aligned:
  assumes "\<forall>i. 1 \<le> i \<and> i < length ps \<longrightarrow> Equal (command (ps ! i)) (cs ! (i - 1))"
  shows "findRebuildIdx 0 ps cs = - 1"
proof -
  let ?d = "findRebuildIdx 0 ps cs"
  have "(?d = - 1 \<and> (\<forall>j < length ps. 1 \<le> 0 + int j \<longrightarrow>
            Equal (command (ps ! j)) (cs ! nat (0 + int j - 1))))
   \<or> (1 \<le> ?d \<and> 0 \<le> ?d \<and> ?d < 0 + len ps
      \<and> \<not> Equal (command (ps ! nat (?d - 0))) (cs ! nat (?d - 1))
      \<and> (\<forall>j < nat (?d - 0). 1 \<le> 0 + int j \<longrightarrow>
            Equal (command (ps ! j)) (cs ! nat (0 + int j - 1))))"
    by (rule findRebuildIdx_cases) simp
  moreover have "\<not> (1 \<le> ?d \<and> ?d < len ps \<and> \<not> Equal (command (ps ! nat ?d)) (cs ! nat (?d - 1)))"
  proof
    assume a: "1 \<le> ?d \<and> ?d < len ps \<and> \<not> Equal (command (ps ! nat ?d)) (cs ! nat (?d - 1))"
    then have "1 \<le> ?d \<and> ?d < int (length ps)"
      by (simp add: len_def)
    then have "1 \<le> nat ?d \<and> nat ?d < length ps"
      by arith
    then have "Equal (command (ps ! nat ?d)) (cs ! (nat ?d - 1))"
      using assms by blast
    moreover have "nat ?d - 1 = nat (?d - 1)"
      using a by simp
    ultimately show False
      using a by simp
  qed
  ultimately show ?thesis
    by auto
qed

lemma command_newCommandPager:
  "Equal (command (fst (newCommandPager start w r c))) c"
  by (auto simp: newCommandPager_def newEmptyPager_def newErrorPager_def newPager_def
        Equal_def Empty_def len_def split: option.splits)

lemma updatePagers_rebuild_aligned:
  assumes "\<forall>i. 1 \<le> i \<and> i < length (pagers m) \<longrightarrow>
     Equal (command (pagers m ! i)) (commands m ! (i - 1))"
  shows "updatePagers_rebuild start (m, w) = (m, w)"
  using findRebuildIdx_aligned [OF assms] by (simp add: updatePagers_rebuild_def)

lemma updatePagers_window_fields:
  "pagers (updatePagers_window m) = pagers m"
  "commands (updatePagers_window m) = commands m"
  "pipes (updatePagers_window m) = pipes m"
  "err (updatePagers_window m) = err m"
  "errText (updatePagers_window m) = errText m"
  "bottomTextInput (updatePagers_window m) = bottomTextInput m"
  by (simp_all add: updatePagers_window_def Let_def)


lemma updatePagers_rebuild_cases:
  assumes r: "updatePagers_rebuild start (m, w) = (m', w')"
    and d: "d = findRebuildIdx 0 (pagers m) (commands m)"
  shows "(d = - 1
      \<and> (\<forall>i. 1 \<le> i \<and> i < length (pagers m) \<longrightarrow>
            Equal (command (pagers m ! i)) (commands m ! (i - 1)))
      \<and> m' = m \<and> w' = w)
   \<or> (1 \<le> d \<and> d < len (pagers m)
      \<and> \<not> Equal (command (pagers m ! nat d)) (commands m ! (nat d - 1))
      \<and> (\<forall>i. 1 \<le> i \<and> i < nat d \<longrightarrow>
            Equal (command (pagers m ! i)) (commands m ! (i - 1)))
      \<and> m' = m\<lparr>pagers := pagers m'\<rparr>
      \<and> length (pagers m') = length (pagers m)
      \<and> (\<forall>i < nat d. pagers m' ! i = pagers m ! i)
      \<and> w' = w\<lparr>next_id := next_id w + (length (pagers m) - nat d),
                cancelled := cancelled w @ cancels (drop (nat d) (pagers m))\<rparr>
      \<and> (\<forall>i. nat d \<le> i \<and> i < length (pagers m) \<longrightarrow>
            pagers m' ! i = fst (newCommandPager start
                           \<lparr>next_id = next_id w + (i - nat d), cancelled = []\<rparr>
                           (shared (pagers m' ! (i - 1))) (commands m ! (i - 1)))))"
proof -
  let ?ps = "pagers m" and ?cs = "commands m"
  have cases: "(d = - 1 \<and> (\<forall>j < length ?ps. 1 \<le> 0 + int j \<longrightarrow>
            Equal (command (?ps ! j)) (?cs ! nat (0 + int j - 1))))
   \<or> (1 \<le> d \<and> 0 \<le> d \<and> d < 0 + len ?ps
      \<and> \<not> Equal (command (?ps ! nat (d - 0))) (?cs ! nat (d - 1))
      \<and> (\<forall>j < nat (d - 0). 1 \<le> 0 + int j \<longrightarrow>
            Equal (command (?ps ! j)) (?cs ! nat (0 + int j - 1))))"
    unfolding d by (rule findRebuildIdx_cases) simp
  have conv: "\<And>i. 1 \<le> i \<Longrightarrow> nat (0 + int i - 1) = i - 1"
    by simp
  from cases show ?thesis
  proof
    assume a: "d = - 1 \<and> (\<forall>j < length ?ps. 1 \<le> 0 + int j \<longrightarrow>
            Equal (command (?ps ! j)) (?cs ! nat (0 + int j - 1)))"
    have al: "\<forall>i. 1 \<le> i \<and> i < length ?ps \<longrightarrow> Equal (command (?ps ! i)) (?cs ! (i - 1))"
    proof (intro allI impI)
      fix i assume i: "1 \<le> i \<and> i < length ?ps"
      then have "1 \<le> 0 + int i" by simp
      then have "Equal (command (?ps ! i)) (?cs ! nat (0 + int i - 1))"
        using a i by blast
      then show "Equal (command (?ps ! i)) (?cs ! (i - 1))"
        using conv [of i] i by simp
    qed
    have "m' = m \<and> w' = w"
      using r a d by (simp add: updatePagers_rebuild_def)
    then show ?thesis
      using a al by blast
  next
    assume b: "1 \<le> d \<and> 0 \<le> d \<and> d < 0 + len ?ps
      \<and> \<not> Equal (command (?ps ! nat (d - 0))) (?cs ! nat (d - 1))
      \<and> (\<forall>j < nat (d - 0). 1 \<le> 0 + int j \<longrightarrow>
            Equal (command (?ps ! j)) (?cs ! nat (0 + int j - 1)))"
    define n where "n = nat d"
    have b1: "1 \<le> d" and b2: "d < int (length ?ps)"
      and b3: "\<not> Equal (command (?ps ! nat (d - 0))) (?cs ! nat (d - 1))"
      using b by (auto simp: len_def)
    have dn: "d = int n" "1 \<le> n" "n \<le> length ?ps" "n < length ?ps"
      using b1 b2 unfolding n_def by arith+
    have ne: "\<not> Equal (command (?ps ! n)) (?cs ! (n - 1))"
    proof -
      have "nat (d - 1) = n - 1" "nat (d - 0) = n"
        using b1 unfolding n_def by arith+
      then show ?thesis
        using b3 by simp
    qed
    have first: "\<forall>i. 1 \<le> i \<and> i < n \<longrightarrow> Equal (command (?ps ! i)) (?cs ! (i - 1))"
    proof (intro allI impI)
      fix i assume i: "1 \<le> i \<and> i < n"
      then have "1 \<le> 0 + int i" "i < nat (d - 0)" unfolding n_def by arith+
      then have "Equal (command (?ps ! i)) (?cs ! nat (0 + int i - 1))"
        using b by blast
      then show "Equal (command (?ps ! i)) (?cs ! (i - 1))"
        using conv [of i] i by simp
    qed
    obtain ps' w'' where rf: "rebuildFrom start ?cs (int n) (?ps, w) = (ps', w'')"
      by (cases "rebuildFrom start ?cs (int n) (?ps, w)") auto
    have "0 < d"
      using b1 by simp
    then have mw: "m' = m\<lparr>pagers := ps'\<rparr>" "w' = w''"
      using r d rf dn(1) by (simp_all add: updatePagers_rebuild_def)
    have pm: "pagers m' = ps'"
      by (simp add: mw)
    have rb: "length ps' = length ?ps
      \<and> (\<forall>j < n. ps' ! j = ?ps ! j)
      \<and> w'' = w\<lparr>next_id := next_id w + (length ?ps - n),
              cancelled := cancelled w @ cancels (drop n ?ps)\<rparr>
      \<and> (\<forall>j. n \<le> j \<and> j < length ?ps \<longrightarrow>
          ps' ! j = fst (newCommandPager start
                           \<lparr>next_id = next_id w + (j - n), cancelled = []\<rparr>
                           (shared (ps' ! (j - 1))) (?cs ! (j - 1))))"
      by (rule rebuildFrom_eq [OF dn(2) dn(3) rf])
    have "1 \<le> d \<and> d < len ?ps"
      using b1 b2 by (simp add: len_def)
    moreover have "m' = m\<lparr>pagers := pagers m'\<rparr>"
      by (simp add: mw)
    ultimately show ?thesis
      using ne first rb unfolding pm mw(2) n_def [symmetric] by blast
  qed
qed


lemma updatePagers_resize_facts:
  assumes "updatePagers_resize (m, w) = (m1, w1)"
  shows "m1 = m\<lparr>pagers := pagers m1\<rparr>"
    and "length (pagers m1) = length (commands m) + 1"
    and "\<forall>i. i < length (pagers m) \<and> i < length (commands m) + 1 \<longrightarrow>
           pagers m1 ! i = pagers m ! i"
    and "w1 = w\<lparr>next_id := next_id w + (length (commands m) + 1 - length (pagers m)),
        cancelled := cancelled w @ cancels (drop (length (commands m) + 1) (pagers m))\<rparr>"
proof -
  let ?N = "length (commands m) + 1"
  let ?new = "map emptyPagerAt [next_id w..<next_id w + (?N - length (pagers m))]"
  have m1: "m1 = m\<lparr>pagers := take ?N (pagers m @ ?new)\<rparr>"
    and w1: "w1 = w\<lparr>next_id := next_id w + (?N - length (pagers m)),
        cancelled := cancelled w @ cancels (drop ?N (pagers m))\<rparr>"
    using assms unfolding updatePagers_resize_eq by simp_all
  show "m1 = m\<lparr>pagers := pagers m1\<rparr>"
    by (simp add: m1)
  show "length (pagers m1) = ?N"
    by (simp add: m1)
  show "\<forall>i. i < length (pagers m) \<and> i < ?N \<longrightarrow> pagers m1 ! i = pagers m ! i"
    by (simp add: m1 nth_append)
  show "w1 = w\<lparr>next_id := next_id w + (?N - length (pagers m)),
        cancelled := cancelled w @ cancels (drop ?N (pagers m))\<rparr>"
    by (rule w1)
qed

lemma updatePagers_split:
  obtains m1 w1 m2 w2 where
    "updatePagers_resize (updatePagers_parse parse m, w) = (m1, w1)"
    "updatePagers_rebuild start (m1, w1) = (m2, w2)"
    "updatePagers parse start (m, w) = (updatePagers_window m2, w2)"
proof -
  obtain m1 w1 where 1: "updatePagers_resize (updatePagers_parse parse m, w) = (m1, w1)"
    by (cases "updatePagers_resize (updatePagers_parse parse m, w)") auto
  obtain m2 w2 where 2: "updatePagers_rebuild start (m1, w1) = (m2, w2)"
    by (cases "updatePagers_rebuild start (m1, w1)") auto
  have "updatePagers parse start (m, w) = (updatePagers_window m2, w2)"
    by (simp add: updatePagers_def 1 2)
  then show ?thesis
    using 1 2 that by blast
qed

lemma updatePagers_wired: "wired (fst (updatePagers parse start (m, w)))"
proof -
  obtain m1 w1 m2 w2 where
    1: "updatePagers_resize (updatePagers_parse parse m, w) = (m1, w1)"
    and 2: "updatePagers_rebuild start (m1, w1) = (m2, w2)"
    and 3: "updatePagers parse start (m, w) = (updatePagers_window m2, w2)"
    by (rule updatePagers_split)
  let ?m0 = "updatePagers_parse parse m"
  have m1: "m1 = ?m0\<lparr>pagers := pagers m1\<rparr>"
    and l1: "length (pagers m1) = length (commands ?m0) + 1"
    using updatePagers_resize_facts [OF 1] by blast+
  have c1: "commands m1 = commands ?m0"
    by (subst m1) simp
  define d where "d = findRebuildIdx 0 (pagers m1) (commands m1)"
  have "wired m2"
    using updatePagers_rebuild_cases [OF 2 d_def]
  proof
    assume "d = - 1
      \<and> (\<forall>i. 1 \<le> i \<and> i < length (pagers m1) \<longrightarrow>
            Equal (command (pagers m1 ! i)) (commands m1 ! (i - 1)))
      \<and> m2 = m1 \<and> w2 = w1"
    then show ?thesis
      using l1 c1 by (simp add: wired_iff)
  next
    assume b: "1 \<le> d \<and> d < len (pagers m1)
      \<and> \<not> Equal (command (pagers m1 ! nat d)) (commands m1 ! (nat d - 1))
      \<and> (\<forall>i. 1 \<le> i \<and> i < nat d \<longrightarrow>
            Equal (command (pagers m1 ! i)) (commands m1 ! (i - 1)))
      \<and> m2 = m1\<lparr>pagers := pagers m2\<rparr>
      \<and> length (pagers m2) = length (pagers m1)
      \<and> (\<forall>i < nat d. pagers m2 ! i = pagers m1 ! i)
      \<and> w2 = w1\<lparr>next_id := next_id w1 + (length (pagers m1) - nat d),
                cancelled := cancelled w1 @ cancels (drop (nat d) (pagers m1))\<rparr>
      \<and> (\<forall>i. nat d \<le> i \<and> i < length (pagers m1) \<longrightarrow>
            pagers m2 ! i = fst (newCommandPager start
                           \<lparr>next_id = next_id w1 + (i - nat d), cancelled = []\<rparr>
                           (shared (pagers m2 ! (i - 1))) (commands m1 ! (i - 1))))"
    then have m2: "m2 = m1\<lparr>pagers := pagers m2\<rparr>"
      by blast
    have c2: "commands m2 = commands m1"
      by (subst m2) simp
    have "\<forall>i. 1 \<le> i \<and> i < length (pagers m2) \<longrightarrow>
           Equal (command (pagers m2 ! i)) (commands m2 ! (i - 1))"
    proof (intro allI impI)
      fix i assume i: "1 \<le> i \<and> i < length (pagers m2)"
      show "Equal (command (pagers m2 ! i)) (commands m2 ! (i - 1))"
      proof (cases "i < nat d")
        case True
        then have "pagers m2 ! i = pagers m1 ! i"
          using b by blast
        moreover have "Equal (command (pagers m1 ! i)) (commands m1 ! (i - 1))"
          using b i True by blast
        ultimately show ?thesis
          by (simp add: c2)
      next
        case False
        then have "nat d \<le> i \<and> i < length (pagers m1)"
          using b i by simp
        then have "pagers m2 ! i = fst (newCommandPager start
                           \<lparr>next_id = next_id w1 + (i - nat d), cancelled = []\<rparr>
                           (shared (pagers m2 ! (i - 1))) (commands m1 ! (i - 1)))"
          using b by blast
        then show ?thesis
          using command_newCommandPager by (simp add: c2)
      qed
    qed
    moreover have "length (pagers m2) = length (commands m2) + 1"
      using b l1 c1 c2 by simp
    ultimately show ?thesis
      by (simp add: wired_iff)
  qed
  then show ?thesis
    by (simp add: 3 wired_iff updatePagers_window_fields)
qed

lemma updatePagers_prefix:
  assumes "wired_prefix (updatePagers_parse parse m)"
  shows "updatePagers parse start (m, w) =
     (updatePagers_window
        ((updatePagers_parse parse m)
           \<lparr>pagers := take (length (commands (updatePagers_parse parse m)) + 1) (pagers m)\<rparr>),
      w\<lparr>cancelled := cancelled w
           @ cancels (drop (length (commands (updatePagers_parse parse m)) + 1) (pagers m))\<rparr>)"
proof -
  let ?m0 = "updatePagers_parse parse m"
  let ?N = "length (commands ?m0) + 1"
  have p0: "pagers ?m0 = pagers m"
    by (simp add: updatePagers_parse_def SetErr_def Let_def split: prod.splits)
  have le: "?N \<le> length (pagers m)"
    and al: "\<forall>i. 1 \<le> i \<and> i < ?N \<longrightarrow>
           Equal (command (pagers m ! i)) (commands ?m0 ! (i - 1))"
    using assms by (simp_all add: wired_prefix_iff p0)
  have z: "?N - length (pagers m) = 0"
    using le by simp
  have 1: "updatePagers_resize (?m0, w) =
      (?m0\<lparr>pagers := take ?N (pagers m)\<rparr>,
       w\<lparr>cancelled := cancelled w @ cancels (drop ?N (pagers m))\<rparr>)"
    unfolding updatePagers_resize_eq p0 z by simp
  have "\<forall>i. 1 \<le> i \<and> i < length (pagers (?m0\<lparr>pagers := take ?N (pagers m)\<rparr>)) \<longrightarrow>
     Equal (command (pagers (?m0\<lparr>pagers := take ?N (pagers m)\<rparr>) ! i))
           (commands (?m0\<lparr>pagers := take ?N (pagers m)\<rparr>) ! (i - 1))"
    using al le by simp
  then have 2: "updatePagers_rebuild start (?m0\<lparr>pagers := take ?N (pagers m)\<rparr>,
       w\<lparr>cancelled := cancelled w @ cancels (drop ?N (pagers m))\<rparr>) =
      (?m0\<lparr>pagers := take ?N (pagers m)\<rparr>,
       w\<lparr>cancelled := cancelled w @ cancels (drop ?N (pagers m))\<rparr>)"
    by (rule updatePagers_rebuild_aligned)
  show ?thesis
    using 2 by (simp add: updatePagers_def 1)
qed

section \<open>Properties of an edit\<close>

subsection \<open>Rejected edits (C7, C10)\<close>

lemma wired_prefix_cong:
  "pagers m' = pagers m \<Longrightarrow> commands m' = commands m \<Longrightarrow> wired_prefix m' = wired_prefix m"
  by (simp add: wired_prefix_iff)

lemma updatePagers_rejected:
  assumes r: "updatePagers_parse parse m = m\<lparr>err := Some e, errText := Some e\<rparr>"
    and wp: "wired_prefix m"
    and u: "updatePagers parse start (m, w) = (m', w')"
  shows "pagers m' = take (length (commands m) + 1) (pagers m)"
    and "commands m' = commands m" and "pipes m' = pipes m"
    and "err m' = Some e" and "errText m' = Some e"
    and "w' = w\<lparr>cancelled := cancelled w
           @ cancels (drop (length (commands m) + 1) (pagers m))\<rparr>"
proof -
  have "wired_prefix (updatePagers_parse parse m)"
    using wp by (simp add: r wired_prefix_iff)
  then have "(m', w') =
     (updatePagers_window
        ((updatePagers_parse parse m)
           \<lparr>pagers := take (length (commands (updatePagers_parse parse m)) + 1) (pagers m)\<rparr>),
      w\<lparr>cancelled := cancelled w
           @ cancels (drop (length (commands (updatePagers_parse parse m)) + 1) (pagers m))\<rparr>)"
    using updatePagers_prefix [of parse m start w] u by simp
  then have m': "m' = updatePagers_window
        (m\<lparr>err := Some e, errText := Some e,
           pagers := take (length (commands m) + 1) (pagers m)\<rparr>)"
    and w': "w' = w\<lparr>cancelled := cancelled w
           @ cancels (drop (length (commands m) + 1) (pagers m))\<rparr>"
    by (simp_all add: r)
  show "pagers m' = take (length (commands m) + 1) (pagers m)"
    and "commands m' = commands m" and "pipes m' = pipes m"
    and "err m' = Some e" and "errText m' = Some e"
    by (simp_all add: m' updatePagers_window_fields)
  show "w' = w\<lparr>cancelled := cancelled w
           @ cancels (drop (length (commands m) + 1) (pagers m))\<rparr>"
    by (rule w')
qed




text \<open>
  In every state of the program the pagers up to \<open>len(m.commands)\<close> carry the commands,
  and closing the pagers after them cancels nothing.
\<close>

lemma reachable_wired_prefix:
  "reachable parse start mw \<Longrightarrow>
   wired_prefix (fst mw)
   \<and> cancels (drop (length (commands (fst mw)) + 1) (pagers (fst mw))) = []"
proof (induction rule: reachable.induct)
  case init
  show ?case
    by (simp add: newModel_def newReadPager_def newEmptyPager_def newPager_def
          wired_prefix_def)
next
  case (step mw t)
  obtain m w where mw: "mw = (m, w)"
    by (cases mw)
  have "wired (fst (updatePagers parse start (m\<lparr>bottomTextInput := t\<rparr>, w)))"
    by (rule updatePagers_wired)
  then have w: "wired (fst (edit parse start t mw))"
    by (simp add: edit_def mw)
  then have "length (pagers (fst (edit parse start t mw)))
      = length (commands (fst (edit parse start t mw))) + 1"
    by (simp add: wired_iff)
  then show ?case
    using wired_imp_prefix [OF w] by simp
qed

text \<open>
  Claim C10. In every state of the program, when the parse of the edited text succeeds,
  its last command is a name with no argument and the text does not end with a space,
  \<open>updatePagers\<close> sets the error made with
  \<open>fmt.Errorf("to execute %q without args, press space", name)\<close>, keeps \<open>commands\<close>
  and \<open>pipes\<close>, and makes no pager and cancels no context: the world is unchanged, and
  the pagers are the first \<open>len(m.commands) + 1\<close> of those there were.
\<close>

theorem bare_command_not_launched:
  assumes r: "reachable parse start (m, w)"
    and p: "parse (Value t) = (cs, ps, None)"
    and bare: "cs \<noteq> []" "Name (last cs) \<noteq> ''''" "Args (last cs) = []"
    and nosp: "\<not> HasSuffix (Value t) '' ''"
    and u: "edit parse start t (m, w) = (m', w')"
  shows "err m' = Some (PressSpace (Name (last cs)))
    \<and> errText m' = Some (PressSpace (Name (last cs)))
    \<and> commands m' = commands m \<and> pipes m' = pipes m
    \<and> pagers m' = take (length (commands m) + 1) (pagers m)
    \<and> w' = w"
proof -
  let ?m = "m\<lparr>bottomTextInput := t\<rparr>"
  let ?e = "PressSpace (Name (last cs))"
  have inv: "wired_prefix m" "cancels (drop (length (commands m) + 1) (pagers m)) = []"
    using reachable_wired_prefix [OF r] by simp_all
  have wp: "wired_prefix ?m"
    using inv(1) by (simp add: wired_prefix_iff)
  have rj: "updatePagers_parse parse ?m = ?m\<lparr>err := Some ?e, errText := Some ?e\<rparr>"
    by (rule updatePagers_parse_bare [where ps = ps]) (simp_all add: p bare nosp)
  have u': "updatePagers parse start (?m, w) = (m', w')"
    using u by (simp add: edit_def)
  have "pagers m' = take (length (commands ?m) + 1) (pagers ?m)"
    and "commands m' = commands ?m" and "pipes m' = pipes ?m"
    and "err m' = Some ?e" and "errText m' = Some ?e"
    and "w' = w\<lparr>cancelled := cancelled w
           @ cancels (drop (length (commands ?m) + 1) (pagers ?m))\<rparr>"
    using updatePagers_rejected [OF rj wp u'] by blast+
  then show ?thesis
    using inv(2) by simp
qed

text \<open>The text \<open>ls\<close> typed in the first state of the program.\<close>

theorem bare_command_not_launched_witness:
  "exampleParse ''ls'' = ([\<lparr>Argv = [''ls''], Raw = ''ls''\<rparr>], [], None)
   \<and> err (fst (edit exampleParse exampleStart \<lparr>Value = ''ls'', Position = 2\<rparr> newModel))
       = Some (PressSpace ''ls'')
   \<and> commands (fst (edit exampleParse exampleStart \<lparr>Value = ''ls'', Position = 2\<rparr> newModel))
       = []
   \<and> snd (edit exampleParse exampleStart \<lparr>Value = ''ls'', Position = 2\<rparr> newModel)
       = \<lparr>next_id = 2, cancelled = []\<rparr>"
proof -
  let ?text = "\<lparr>Value = ''ls'', Position = 2\<rparr>"
  let ?mw = "edit exampleParse exampleStart ?text newModel"
  let ?cs = "[\<lparr>Argv = [''ls''], Raw = ''ls''\<rparr>]"
  have r: "reachable exampleParse exampleStart (fst newModel, snd newModel)"
    using reachable.init [of exampleParse exampleStart] by simp
  have p: "exampleParse (Value ?text) = (?cs, [], None)"
    by code_simp
  have b: "?cs \<noteq> []" "Name (last ?cs) \<noteq> ''''" "Args (last ?cs) = []"
    by code_simp+
  have s: "\<not> HasSuffix (Value ?text) '' ''"
    by code_simp
  have u: "edit exampleParse exampleStart ?text (fst newModel, snd newModel) = (fst ?mw, snd ?mw)"
    by simp
  have n: "Name (last ?cs) = ''ls''" "commands (fst newModel) = []"
    "snd newModel = \<lparr>next_id = 2, cancelled = []\<rparr>"
    by code_simp+
  show ?thesis
    using bare_command_not_launched [OF r p b s u] p n by simp
qed

end
